theory Spec2Isabelle
  imports Main
begin

section \<open>The snapshotter package\<close>

text \<open>
  A shallow embedding of \<^verbatim>\<open>snapshotter/snapshotter.go\<close>. The Go standard library and the
  two third-party packages the file imports are not part of it; what the program calls of
  them is modelled below (strings, path/filepath, os, io/ioutil) or taken as a parameter
  (encoding/json, godebug/pretty, go-difflib).
\<close>

subsection \<open>strings.Replace and filepath.Join\<close>

text \<open>
  \<^verbatim>\<open>strings.Replace(s, old, new, n)\<close> replaces the first \<open>n\<close> non-overlapping
  occurrences of \<open>old\<close>, scanning from the left, and all of them when \<open>n < 0\<close>. It
  returns \<open>s\<close> when \<open>old = new\<close> or \<open>n = 0\<close>. The program calls it with the one-byte
  patterns \<^verbatim>\<open>"/"\<close> and \<^verbatim>\<open>":"\<close> only; an empty \<open>old\<close>, which Go matches between
  runes, is outside this model (\<open>s\<close> is returned).
\<close>

function Replace :: "string \<Rightarrow> string \<Rightarrow> string \<Rightarrow> int \<Rightarrow> string" where
  "Replace s old new n =
     (if old = new \<or> n = 0 \<or> old = [] \<or> s = [] then s
      else if take (length old) s = old
        then new @ Replace (drop (length old) s) old new (n - 1)
        else hd s # Replace (tl s) old new n)"
  by pat_completeness auto
termination
  by (relation "measure (\<lambda>(s, old, new, n). length s)") auto

declare Replace.simps [simp del]

text \<open>
  \<^verbatim>\<open>filepath.Join(dir, file)\<close> with the Unix separator. Join cleans its result; both
  elements are non-empty, hold no separator and are no dot element where the program calls
  it (the file element has had every \<^verbatim>\<open>/\<close> replaced and ends in
  \<^verbatim>\<open>.snapshots.json\<close>), so cleaning changes nothing there.
\<close>

definition filepath_Join :: "string \<Rightarrow> string \<Rightarrow> string" where
  "filepath_Join dir file = dir @ ''/'' @ file"

subsection \<open>The golden file's path (Verify, lines 84 to 88)\<close>

definition nameSuffix :: "string \<Rightarrow> string" where
  "nameSuffix s_name =
     (if s_name \<noteq> [] then ''_'' @ Replace (Replace s_name ''/'' ''-'' (-1)) '':'' ''-'' (-1)
      else [])"

definition golden_path :: "string \<Rightarrow> string \<Rightarrow> string" where
  "golden_path t_Name s_name =
     filepath_Join ''testdata''
       (Replace (Replace t_Name ''/'' ''-'' (-1)) '':'' ''-'' (-1) @ nameSuffix s_name
        @ ''.snapshots.json'')"

text \<open>The specification's sanitization: every \<^verbatim>\<open>/\<close> and every \<^verbatim>\<open>:\<close> becomes \<^verbatim>\<open>-\<close>.\<close>

definition sanitize :: "string \<Rightarrow> string" where
  "sanitize s = map (\<lambda>c. if c = CHR ''/'' \<or> c = CHR '':'' then CHR ''-'' else c) s"

subsection \<open>Values, errors and reports\<close>

text \<open>
  A Go \<^verbatim>\<open>interface{}\<close> value as far as the program looks at it: it asks whether a value
  is a string (the type assertions of Verify and coerceToString), it passes slices of
  strings (the name sequences) and slices of values to diffString, and every other
  dynamic type (nil, bool, float64, maps, structs, channels, ...) is opaque to it.
  A nil slice and an empty slice are both the empty list.
\<close>

datatype 'a iface =
    IString string
  | IStrings "string list"
  | ISlice "'a iface list"
  | IOther 'a

datatype error = ErrNotExist | Err string

datatype panic = NilDereference | IndexOutOfRange

text \<open>
  The calls of \<^verbatim>\<open>t.Errorf\<close>, one constructor for each format string of the file, with the
  format's arguments.
\<close>

datatype 'a report =
    RoundtripError string "'a iface" error
  | RemoveFailed string
  | MkdirFailed error
  | MarshalFailed error
  | WriteFailed error
  | ReadFailed error
  | UnmarshalFailed error
  | NamesDiffer string
  | SnapshotDiffers string string
  | RewriteHint

text \<open>The test handle \<^verbatim>\<open>T\<close>: what \<^verbatim>\<open>Name()\<close> returns and the reports made so far.\<close>

record 'a T =
  TName :: string
  Errors :: "'a report list"

definition Errorf :: "'a report \<Rightarrow> 'a T \<Rightarrow> 'a T" where
  "Errorf r t = t\<lparr>Errors := Errors t @ [r]\<rparr>"

subsection \<open>The snapshot set\<close>

text \<open>
  Go slices are references: the entry that Snapshot appends shares its backing array with
  the slice the caller passed. The store maps the address of a backing array to its
  elements; a \<^verbatim>\<open>snapshot\<close> in memory holds the address (\<open>addr snapshot\<close>), a decoded or
  encoded one holds the elements (\<open>'a iface list snapshot\<close>).
\<close>

type_synonym addr = nat

type_synonym 'a store = "addr \<Rightarrow> 'a iface list"

record 'v snapshot =
  Name :: string
  Values :: 'v

record 'a Snapshotter =
  s_t :: "'a T"
  s_name :: string
  s_snapshots :: "addr snapshot list"
  SnapshotErrors :: bool

definition New :: "'a T \<Rightarrow> 'a Snapshotter" where
  "New t = \<lparr>s_t = t, s_name = [], s_snapshots = [], SnapshotErrors = False\<rparr>"

definition NewNamed :: "'a T \<Rightarrow> string \<Rightarrow> 'a Snapshotter" where
  "NewNamed t n = \<lparr>s_t = t, s_name = n, s_snapshots = [], SnapshotErrors = False\<rparr>"

definition deref :: "'a store \<Rightarrow> addr snapshot \<Rightarrow> 'a iface list snapshot" where
  "deref h sn = \<lparr>Name = Name sn, Values = h (Values sn)\<rparr>"

subsection \<open>The imported packages\<close>

text \<open>
  The argument of \<^verbatim>\<open>difflib.GetUnifiedDiffString\<close>, with the fields the program sets.
\<close>

record UnifiedDiff =
  A :: "string list"
  B :: "string list"
  FromFile :: string
  ToFile :: string
  Context :: nat

text \<open>
  encoding/json, godebug/pretty and go-difflib, as the functions the program calls.
  \<open>'b\<close> is the type of encoded data (the bytes of a golden file), which the program only
  hands from one call to the next. \<open>json_Marshal\<close> and \<open>json_Unmarshal\<close> are the calls
  of jsonRoundTrip (into an \<^verbatim>\<open>interface{}\<close>); \<open>json_MarshalIndent\<close> and
  \<open>json_UnmarshalSnapshots\<close> are the calls of Verify on \<^verbatim>\<open>[]*snapshot\<close>, where a JSON
  \<^verbatim>\<open>null\<close> element decodes to a nil pointer (\<open>None\<close>).
\<close>

record ('a, 'b) packages =
  json_Marshal :: "'a iface \<Rightarrow> error + 'b"
  json_Unmarshal :: "'b \<Rightarrow> error + 'a iface"
  json_MarshalIndent :: "'a iface list snapshot list \<Rightarrow> error + 'b"
  json_UnmarshalSnapshots :: "'b \<Rightarrow> error + 'a iface list snapshot option list"
  pretty_Sprint :: "'a iface \<Rightarrow> string"
  difflib_SplitLines :: "string \<Rightarrow> string list"
  difflib_GetUnifiedDiffString :: "UnifiedDiff \<Rightarrow> string"

subsection \<open>The file system\<close>

text \<open>
  The files by path, and for each call and path the message of the error the operating
  system answers with when the call fails for a reason of its own (permissions, a full
  disk, ...); a missing file is \<open>ErrNotExist\<close>. Directories are not tracked.
\<close>

datatype syscall = Stat | Remove | MkdirAll | WriteFile | ReadFile

record 'b filesystem =
  files :: "string \<rightharpoonup> 'b"
  failing :: "syscall \<Rightarrow> string \<Rightarrow> string option"

definition os_Stat :: "'b filesystem \<Rightarrow> string \<Rightarrow> error option" where
  "os_Stat fs path =
     (case failing fs Stat path of
        Some msg \<Rightarrow> Some (Err msg)
      | None \<Rightarrow> (if files fs path = None then Some ErrNotExist else None))"

definition os_IsNotExist :: "error option \<Rightarrow> bool" where
  "os_IsNotExist err = (err = Some ErrNotExist)"

definition os_Remove :: "'b filesystem \<Rightarrow> string \<Rightarrow> error option \<times> 'b filesystem" where
  "os_Remove fs path =
     (case failing fs Remove path of
        Some msg \<Rightarrow> (Some (Err msg), fs)
      | None \<Rightarrow>
          (if files fs path = None then (Some ErrNotExist, fs)
           else (None, fs\<lparr>files := (files fs)(path := None)\<rparr>)))"

definition os_MkdirAll :: "'b filesystem \<Rightarrow> string \<Rightarrow> error option \<times> 'b filesystem" where
  "os_MkdirAll fs path =
     (case failing fs MkdirAll path of Some msg \<Rightarrow> (Some (Err msg), fs) | None \<Rightarrow> (None, fs))"

definition ioutil_WriteFile ::
  "'b filesystem \<Rightarrow> string \<Rightarrow> 'b \<Rightarrow> error option \<times> 'b filesystem" where
  "ioutil_WriteFile fs path data =
     (case failing fs WriteFile path of
        Some msg \<Rightarrow> (Some (Err msg), fs)
      | None \<Rightarrow> (None, fs\<lparr>files := (files fs)(path \<mapsto> data)\<rparr>))"

definition ioutil_ReadFile :: "'b filesystem \<Rightarrow> string \<Rightarrow> error + 'b" where
  "ioutil_ReadFile fs path =
     (case failing fs ReadFile path of
        Some msg \<Rightarrow> Inl (Err msg)
      | None \<Rightarrow> (case files fs path of None \<Rightarrow> Inl ErrNotExist | Some data \<Rightarrow> Inr data))"

subsection \<open>jsonRoundTrip\<close>

definition jsonRoundTrip :: "('a, 'b) packages \<Rightarrow> 'a iface \<Rightarrow> error + 'a iface" where
  "jsonRoundTrip pk v =
     (case json_Marshal pk v of
        Inl err \<Rightarrow> Inl err
      | Inr bytes \<Rightarrow>
          (case json_Unmarshal pk bytes of
             Inl err \<Rightarrow> Inl err
           | Inr roundtripped \<Rightarrow> Inr roundtripped))"

subsection \<open>Snapshot\<close>

text \<open>
  The range loop of Snapshot over the slice at address \<open>a\<close>, whose length \<open>n\<close> is read
  once; \<open>i\<close> is the index. It answers the first failure, with the element that failed, or
  \<open>None\<close>; the elements before the failure have been overwritten in the store. Snapshot
  passes the length of the slice for \<open>n\<close>, so every index read is in range.
\<close>

function Snapshot_range ::
  "('a, 'b) packages \<Rightarrow> addr \<Rightarrow> nat \<Rightarrow> nat \<Rightarrow> 'a store \<Rightarrow> ('a iface \<times> error) option \<times> 'a store"
where
  "Snapshot_range pk a n i h =
     (if i < n then
        (case jsonRoundTrip pk (h a ! i) of
           Inl err \<Rightarrow> (Some (h a ! i, err), h)
         | Inr roundtripped \<Rightarrow>
             Snapshot_range pk a n (Suc i) (h(a := (h a)[i := roundtripped])))
      else (None, h))"
  by pat_completeness auto
termination
  by (relation "measure (\<lambda>(pk, a, n, i, h). n - i)") auto

declare Snapshot_range.simps [simp del]

text \<open>
  \<^verbatim>\<open>s.Snapshot(name, values...)\<close>, where \<open>vs\<close> is the address of \<^verbatim>\<open>values\<close>. The state is
  the store and the Snapshotter.
\<close>

definition Snapshot ::
  "('a, 'b) packages \<Rightarrow> string \<Rightarrow> addr \<Rightarrow> 'a store \<times> 'a Snapshotter \<Rightarrow> 'a store \<times> 'a Snapshotter"
where
  "Snapshot pk nm vs st =
     (case st of (h, s) \<Rightarrow>
        (case Snapshot_range pk vs (length (h vs)) 0 h of
           (Some (v, err), h') \<Rightarrow> (h', s\<lparr>s_t := Errorf (RoundtripError nm v err) (s_t s)\<rparr>)
         | (None, h') \<Rightarrow>
             (h', s\<lparr>s_snapshots := s_snapshots s @ [\<lparr>Name = nm, Values = vs\<rparr>]\<rparr>)))"

subsection \<open>coerceToString and diffString\<close>

definition coerceToString :: "('a, 'b) packages \<Rightarrow> 'a iface \<Rightarrow> string" where
  "coerceToString pk i = (case i of IString str \<Rightarrow> str | _ \<Rightarrow> pretty_Sprint pk i)"

definition diffString :: "('a, 'b) packages \<Rightarrow> 'a iface \<Rightarrow> 'a iface \<Rightarrow> string" where
  "diffString pk a b =
     difflib_GetUnifiedDiffString pk
       \<lparr>A = difflib_SplitLines pk (coerceToString pk a),
        B = difflib_SplitLines pk (coerceToString pk b),
        FromFile = ''expected'',
        ToFile = ''received'',
        Context = 1\<rparr>"

subsection \<open>Verify\<close>

text \<open>
  Lines 152 to 162: when both sides carry exactly one value and it is a string on both
  sides, the diff of the two strings. \<open>Some diff\<close> is the non-empty diff after which
  Verify returns; \<open>None\<close> falls through to line 164.
\<close>

definition string_diff ::
  "('a, 'b) packages \<Rightarrow> 'a iface list \<Rightarrow> 'a iface list \<Rightarrow> string option" where
  "string_diff pk expectedValue actualValue =
     (if length expectedValue = 1 \<and> length actualValue = 1 then
        (case expectedValue ! 0 of
           IString expectedString \<Rightarrow>
             (case actualValue ! 0 of
                IString actualString \<Rightarrow>
                  (let diff = diffString pk (IString expectedString) (IString actualString)
                   in if diff \<noteq> [] then Some diff else None)
              | _ \<Rightarrow> None)
         | _ \<Rightarrow> None)
      else None)"

text \<open>
  The loop of lines 148 to 168 over \<^verbatim>\<open>actual\<close>, with \<^verbatim>\<open>expected\<close> from the same index on.
  \<^verbatim>\<open>expected[i]\<close> panics when the golden file has fewer entries.
\<close>

fun compare_entries ::
  "('a, 'b) packages \<Rightarrow> 'a store \<Rightarrow> 'a iface list snapshot list \<Rightarrow> addr snapshot list \<Rightarrow>
   'a T \<Rightarrow> panic + 'a T"
where
  "compare_entries pk h expected [] t = Inr t"
| "compare_entries pk h [] (a # actual) t = Inl IndexOutOfRange"
| "compare_entries pk h (e # expected) (a # actual) t =
     (case string_diff pk (Values e) (h (Values a)) of
        Some diff \<Rightarrow> Inr (Errorf RewriteHint (Errorf (SnapshotDiffers (Name a) diff) t))
      | None \<Rightarrow>
          (let diff = diffString pk (ISlice (Values e)) (ISlice (h (Values a)))
           in compare_entries pk h expected actual
                (if diff \<noteq> [] then Errorf RewriteHint (Errorf (SnapshotDiffers (Name a) diff) t)
                 else t)))"

text \<open>
  The loop of lines 139 to 141 reads \<^verbatim>\<open>snapshot.Name\<close> through each decoded pointer;
  the first nil pointer panics.
\<close>

fun expected_entries :: "'v snapshot option list \<Rightarrow> panic + 'v snapshot list" where
  "expected_entries [] = Inr []"
| "expected_entries (None # rest) = Inl NilDereference"
| "expected_entries (Some sn # rest) =
     (case expected_entries rest of Inl p \<Rightarrow> Inl p | Inr sns \<Rightarrow> Inr (sn # sns))"

text \<open>
  \<^verbatim>\<open>s.Verify()\<close>. \<open>rewrite\<close> is the flag \<^verbatim>\<open>-rewriteSnapshots\<close>. Verify changes the file
  system and the reports of \<open>s_t\<close>; it reads the store and leaves it as it is.
  \<^verbatim>\<open>t.Helper()\<close> only marks the caller for the test runner's output and has no part in
  the state. A panic (\<open>Inl\<close>) ends the call.
\<close>

definition Verify ::
  "('a, 'b) packages \<Rightarrow> bool \<Rightarrow> 'a store \<Rightarrow> 'b filesystem \<times> 'a Snapshotter \<Rightarrow>
   panic + 'b filesystem \<times> 'a Snapshotter"
where
  "Verify pk rewrite h st =
     (case st of (fs, s) \<Rightarrow>
     (let path = golden_path (TName (s_t s)) (s_name s) in
      if rewrite then
        (if length (s_snapshots s) = 0 then
           (if os_IsNotExist (os_Stat fs path) then Inr (fs, s)
            else
              (case os_Remove fs path of
                 (Some err, fs') \<Rightarrow> Inr (fs', s\<lparr>s_t := Errorf (RemoveFailed path) (s_t s)\<rparr>)
               | (None, fs') \<Rightarrow> Inr (fs', s)))
         else
           (case os_MkdirAll fs ''testdata'' of
              (Some err, fs') \<Rightarrow> Inr (fs', s\<lparr>s_t := Errorf (MkdirFailed err) (s_t s)\<rparr>)
            | (None, fs') \<Rightarrow>
                (case json_MarshalIndent pk (map (deref h) (s_snapshots s)) of
                   Inl err \<Rightarrow> Inr (fs', s\<lparr>s_t := Errorf (MarshalFailed err) (s_t s)\<rparr>)
                 | Inr bytes \<Rightarrow>
                     (case ioutil_WriteFile fs' path bytes of
                        (Some err, fs'') \<Rightarrow>
                          Inr (fs'', s\<lparr>s_t := Errorf (WriteFailed err) (s_t s)\<rparr>)
                      | (None, fs'') \<Rightarrow> Inr (fs'', s)))))
      else
        (if os_IsNotExist (os_Stat fs path) \<and> length (s_snapshots s) = 0 then Inr (fs, s)
         else
           (case ioutil_ReadFile fs path of
              Inl err \<Rightarrow> Inr (fs, s\<lparr>s_t := Errorf (ReadFailed err) (s_t s)\<rparr>)
            | Inr bytes \<Rightarrow>
                (case json_UnmarshalSnapshots pk bytes of
                   Inl err \<Rightarrow> Inr (fs, s\<lparr>s_t := Errorf (UnmarshalFailed err) (s_t s)\<rparr>)
                 | Inr expected \<Rightarrow>
                     (let actual = s_snapshots s;
                          actualNames = map Name actual
                      in case expected_entries expected of
                           Inl p \<Rightarrow> Inl p
                         | Inr expected' \<Rightarrow>
                             (let expectedNames = map Name expected';
                                  diff = diffString pk (IStrings expectedNames)
                                           (IStrings actualNames)
                              in if diff \<noteq> [] then
                                   Inr (fs, s\<lparr>s_t := Errorf (NamesDiffer diff) (s_t s)\<rparr>)
                                 else
                                   (case compare_entries pk h expected' actual (s_t s) of
                                      Inl p \<Rightarrow> Inl p
                                    | Inr t' \<Rightarrow> Inr (fs, s\<lparr>s_t := t'\<rparr>)))))))))"

subsection \<open>What the program relies on in the imported packages\<close>

text \<open>
  A unified diff is empty exactly when the two line sequences are equal; a text is
  determined by its lines; the rendering of a sequence of names determines the sequence.
\<close>

definition diff_exact :: "('a, 'b) packages \<Rightarrow> bool" where
  "diff_exact pk \<longleftrightarrow> (\<forall>d. (difflib_GetUnifiedDiffString pk d = []) = (A d = B d))"

definition lines_exact :: "('a, 'b) packages \<Rightarrow> bool" where
  "lines_exact pk \<longleftrightarrow>
     (\<forall>x y. (difflib_SplitLines pk x = difflib_SplitLines pk y) = (x = y))"

definition names_exact :: "('a, 'b) packages \<Rightarrow> bool" where
  "names_exact pk \<longleftrightarrow>
     (\<forall>xs ys. (pretty_Sprint pk (IStrings xs) = pretty_Sprint pk (IStrings ys)) = (xs = ys))"

text \<open>
  Of encoding/json. \<open>json_rereads pk v g\<close>: Marshal encodes \<open>v\<close> and Unmarshal reads
  \<open>g\<close> from the encoding. The documentation lists what Unmarshal stores in an interface
  value (bool, float64, string, []interface{}, map[string]interface{} and nil) and how
  Marshal encodes each of them; \<open>json_reads_back\<close> says that whatever Unmarshal has
  stored, Marshal encodes and Unmarshal reads the same value back from the encoding.
  \<open>json_entrywise\<close> says that the encoder treats a \<^verbatim>\<open>snapshot\<close> field by field:
  decoding the encoded entries gives, for each entry, the name as a string comes back
  from Marshal and Unmarshal, and each value as it comes back from them (when every
  value comes back at all: a number too large for a float64 is encoded and then
  refused).
\<close>

definition json_rereads :: "('a, 'b) packages \<Rightarrow> 'a iface \<Rightarrow> 'a iface \<Rightarrow> bool" where
  "json_rereads pk v g \<longleftrightarrow>
     (\<exists>bytes. json_Marshal pk v = Inr bytes \<and> json_Unmarshal pk bytes = Inr g)"

definition json_reads_back :: "('a, 'b) packages \<Rightarrow> bool" where
  "json_reads_back pk \<longleftrightarrow>
     (\<forall>bytes g. json_Unmarshal pk bytes = Inr g \<longrightarrow> json_rereads pk g g)"

definition json_entrywise :: "('a, 'b) packages \<Rightarrow> bool" where
  "json_entrywise pk \<longleftrightarrow>
     (\<forall>sns bytes.
        json_MarshalIndent pk sns = Inr bytes \<and>
        (\<forall>sn \<in> set sns. \<forall>v \<in> set (Values sn). \<exists>g. json_rereads pk v g) \<longrightarrow>
        (\<exists>decoded.
           json_UnmarshalSnapshots pk bytes = Inr (map Some decoded) \<and>
           list_all2
             (\<lambda>sn d. json_rereads pk (IString (Name sn)) (IString (Name d)) \<and>
                     list_all2 (\<lambda>v g. json_rereads pk v g) (Values sn) (Values d))
             sns decoded))"

text \<open>
  The golden file that Verify writes for the entries \<open>sns\<close> decodes to \<open>sns\<close>.
\<close>

definition decodes_back :: "('a, 'b) packages \<Rightarrow> 'a iface list snapshot list \<Rightarrow> bool" where
  "decodes_back pk sns \<longleftrightarrow>
     (\<forall>bytes. json_MarshalIndent pk sns = Inr bytes \<longrightarrow>
        json_UnmarshalSnapshots pk bytes = Inr (map Some sns))"

subsection \<open>A test\<close>

text \<open>
  A test function as the package is meant to be used: \<^verbatim>\<open>NewNamed(t, d)\<close>, the Snapshot
  calls in order (each with its name and the address of its values), then Verify. It
  answers the file system and the reports of the test handle.
\<close>

definition capture ::
  "('a, 'b) packages \<Rightarrow> (string \<times> addr) list \<Rightarrow> 'a store \<times> 'a Snapshotter \<Rightarrow>
   'a store \<times> 'a Snapshotter" where
  "capture pk calls st = foldl (\<lambda>st (nm, vs). Snapshot pk nm vs st) st calls"

definition run_test ::
  "('a, 'b) packages \<Rightarrow> bool \<Rightarrow> 'a T \<Rightarrow> string \<Rightarrow> (string \<times> addr) list \<Rightarrow> 'a store \<Rightarrow>
   'b filesystem \<Rightarrow> panic + 'b filesystem \<times> 'a report list" where
  "run_test pk rewrite t d calls h0 fs =
     (case capture pk calls (h0, NewNamed t d) of
        (h, s) \<Rightarrow>
          (case Verify pk rewrite h (fs, s) of
             Inl p \<Rightarrow> Inl p
           | Inr (fs', s') \<Rightarrow> Inr (fs', Errors (s_t s'))))"

subsection \<open>An instance of the packages\<close>

text \<open>
  Small stand-ins for the three packages, used to run the program on examples. The
  dynamic types besides strings and slices are Go integers, float64 numbers and
  channels; encoding turns an integer into a float64 and a slice of strings into a slice
  of values, as JSON does, and refuses a channel. Encoded data is the decoded document
  itself.
\<close>

datatype other = OInt int | OFloat64 int | OChan

datatype document =
    ValueDoc "other iface"
  | SnapshotsDoc "other iface list snapshot option list"

fun sequence :: "(error + 'x) list \<Rightarrow> error + 'x list" where
  "sequence [] = Inr []"
| "sequence (Inl e # rs) = Inl e"
| "sequence (Inr x # rs) = (case sequence rs of Inl e \<Rightarrow> Inl e | Inr xs \<Rightarrow> Inr (x # xs))"

fun ex_generic :: "other iface \<Rightarrow> error + other iface" where
  "ex_generic (IString str) = Inr (IString str)"
| "ex_generic (IStrings strs) = Inr (ISlice (map IString strs))"
| "ex_generic (ISlice vs) =
     (case sequence (map ex_generic vs) of Inl e \<Rightarrow> Inl e | Inr gs \<Rightarrow> Inr (ISlice gs))"
| "ex_generic (IOther (OInt n)) = Inr (IOther (OFloat64 n))"
| "ex_generic (IOther (OFloat64 n)) = Inr (IOther (OFloat64 n))"
| "ex_generic (IOther OChan) = Inl (Err ''json: unsupported type: chan int'')"

definition ex_Marshal :: "other iface \<Rightarrow> error + document" where
  "ex_Marshal v = (case ex_generic v of Inl e \<Rightarrow> Inl e | Inr g \<Rightarrow> Inr (ValueDoc g))"

fun ex_Unmarshal :: "document \<Rightarrow> error + other iface" where
  "ex_Unmarshal (ValueDoc g) = Inr g"
| "ex_Unmarshal (SnapshotsDoc sns) = Inl (Err ''json: not a single value'')"

definition ex_entry :: "other iface list snapshot \<Rightarrow> error + other iface list snapshot option"
where
  "ex_entry sn =
     (case sequence (map ex_generic (Values sn)) of
        Inl e \<Rightarrow> Inl e
      | Inr gs \<Rightarrow> Inr (Some \<lparr>Name = Name sn, Values = gs\<rparr>))"

definition ex_MarshalIndent :: "other iface list snapshot list \<Rightarrow> error + document" where
  "ex_MarshalIndent sns =
     (case sequence (map ex_entry sns) of Inl e \<Rightarrow> Inl e | Inr es \<Rightarrow> Inr (SnapshotsDoc es))"

fun ex_UnmarshalSnapshots :: "document \<Rightarrow> error + other iface list snapshot option list" where
  "ex_UnmarshalSnapshots (SnapshotsDoc sns) = Inr sns"
| "ex_UnmarshalSnapshots (ValueDoc g) = Inl (Err ''json: not a list of snapshots'')"

text \<open>A string, each byte marked, with an end mark: no rendering is a prefix of another.\<close>

fun ex_quote :: "string \<Rightarrow> string" where
  "ex_quote [] = ''.''"
| "ex_quote (c # cs) = CHR ''+'' # c # ex_quote cs"

fun ex_tally :: "int \<Rightarrow> string" where
  "ex_tally n = (if n < 0 then CHR ''-'' # replicate (nat (- n)) CHR ''|''
                 else replicate (nat n) CHR ''|'')"

fun ex_Sprint :: "other iface \<Rightarrow> string" where
  "ex_Sprint (IString str) = ex_quote str"
| "ex_Sprint (IStrings strs) = concat (map ex_quote strs)"
| "ex_Sprint (ISlice vs) = ''['' @ concat (map (\<lambda>v. ex_Sprint v @ '','') vs) @ '']''"
| "ex_Sprint (IOther (OInt n)) = ex_tally n"
| "ex_Sprint (IOther (OFloat64 n)) = ex_tally n"
| "ex_Sprint (IOther OChan) = ''(chan int)''"

text \<open>
  \<^verbatim>\<open>difflib.SplitLines\<close>: the text split after each newline, with a newline added to the
  last piece.
\<close>

fun split_after :: "string \<Rightarrow> string list" where
  "split_after [] = [[]]"
| "split_after (c # cs) =
     (if c = CHR 0x0A then [c] # split_after cs
      else (case split_after cs of l # ls \<Rightarrow> (c # l) # ls | [] \<Rightarrow> [[c]]))"

definition ex_SplitLines :: "string \<Rightarrow> string list" where
  "ex_SplitLines str =
     (let ls = split_after str in butlast ls @ [last ls @ [CHR 0x0A]])"

text \<open>
  A stand-in for the unified diff: empty for equal sides, otherwise the two header lines
  and all lines of both sides.
\<close>

definition ex_GetUnifiedDiffString :: "UnifiedDiff \<Rightarrow> string" where
  "ex_GetUnifiedDiffString d =
     (if A d = B d then []
      else ''--- '' @ FromFile d @ [CHR 0x0A] @ ''+++ '' @ ToFile d @ [CHR 0x0A]
           @ concat (map (\<lambda>l. CHR ''-'' # l) (A d)) @ concat (map (\<lambda>l. CHR ''+'' # l) (B d)))"

definition ex_packages :: "(other, document) packages" where
  "ex_packages =
     \<lparr>json_Marshal = ex_Marshal,
      json_Unmarshal = ex_Unmarshal,
      json_MarshalIndent = ex_MarshalIndent,
      json_UnmarshalSnapshots = ex_UnmarshalSnapshots,
      pretty_Sprint = ex_Sprint,
      difflib_SplitLines = ex_SplitLines,
      difflib_GetUnifiedDiffString = ex_GetUnifiedDiffString\<rparr>"

text \<open>Example data: a test handle, a store of argument slices, a file system where no call
  fails and one where every removal fails, two Snapshot calls.\<close>

definition ex_t :: "other T" where
  "ex_t = \<lparr>TName = ''TestRender/case:1'', Errors = []\<rparr>"

definition ex_store :: "other store" where
  "ex_store =
     (\<lambda>a. [])
       (0 := [IOther (OInt 2)],
        1 := [IOther (OInt 3)],
        2 := [IOther (OInt 1), IOther OChan, IOther (OInt 5)],
        3 := [IString ''hello''])"

definition ex_fs :: "(string \<rightharpoonup> document) \<Rightarrow> document filesystem" where
  "ex_fs fls = \<lparr>files = fls, failing = (\<lambda>call path. None)\<rparr>"

definition ex_fs_locked :: "(string \<rightharpoonup> document) \<Rightarrow> document filesystem" where
  "ex_fs_locked fls =
     \<lparr>files = fls,
      failing = (\<lambda>call path. if call = Remove then Some ''permission denied'' else None)\<rparr>"

definition ex_calls :: "(string \<times> addr) list" where
  "ex_calls = [(''e1'', 0), (''e2'', 1)]"

text \<open>
  Golden files: what rewrite mode writes for \<open>ex_calls\<close>; an older one, whose two
  entries both differ from it; one with a single string.
\<close>

definition ex_written :: document where
  "ex_written =
     SnapshotsDoc
       [Some \<lparr>Name = ''e1'', Values = [IOther (OFloat64 2)]\<rparr>,
        Some \<lparr>Name = ''e2'', Values = [IOther (OFloat64 3)]\<rparr>]"

definition ex_old :: document where
  "ex_old =
     SnapshotsDoc
       [Some \<lparr>Name = ''e1'', Values = [IOther (OFloat64 1)]\<rparr>,
        Some \<lparr>Name = ''e2'', Values = [IOther (OFloat64 2)]\<rparr>]"

definition ex_greeting :: document where
  "ex_greeting = SnapshotsDoc [Some \<lparr>Name = ''greeting'', Values = [IString ''hullo'']\<rparr>]"

subsection \<open>An instance with strings as encoding/json treats them\<close>

text \<open>
  encoding/json coerces a string to valid UTF-8 when it encodes it: each byte that does
  not start a well-formed UTF-8 sequence is replaced by U+FFFD (\<^verbatim>\<open>utf8.RuneError\<close>, the
  bytes EF BF BD). \<open>rune_len\<close> is the length of the well-formed sequence at the head
  of a string (the table of RFC 3629, as \<^verbatim>\<open>utf8.DecodeRuneInString\<close> reads it), and 0
  when there is none.
\<close>

definition utf8_cont :: "char \<Rightarrow> bool" where
  "utf8_cont c \<longleftrightarrow> 0x80 \<le> (of_char c :: nat) \<and> (of_char c :: nat) \<le> 0xBF"

definition utf8_second :: "nat \<Rightarrow> char \<Rightarrow> bool" where
  "utf8_second b1 c =
     (let n = (of_char c :: nat) in
      if b1 = 0xE0 then 0xA0 \<le> n \<and> n \<le> 0xBF
      else if b1 = 0xED then 0x80 \<le> n \<and> n \<le> 0x9F
      else if b1 = 0xF0 then 0x90 \<le> n \<and> n \<le> 0xBF
      else if b1 = 0xF4 then 0x80 \<le> n \<and> n \<le> 0x8F
      else 0x80 \<le> n \<and> n \<le> 0xBF)"

fun rune_len :: "string \<Rightarrow> nat" where
  "rune_len [] = 0"
| "rune_len (b1 # rest) =
     (let n = (of_char b1 :: nat) in
      if n < 0x80 then 1
      else if 0xC2 \<le> n \<and> n \<le> 0xDF then
        (case rest of b2 # _ \<Rightarrow> if utf8_cont b2 then 2 else 0 | _ \<Rightarrow> 0)
      else if 0xE0 \<le> n \<and> n \<le> 0xEF then
        (case rest of b2 # b3 # _ \<Rightarrow> if utf8_second n b2 \<and> utf8_cont b3 then 3 else 0 | _ \<Rightarrow> 0)
      else if 0xF0 \<le> n \<and> n \<le> 0xF4 then
        (case rest of
           b2 # b3 # b4 # _ \<Rightarrow> if utf8_second n b2 \<and> utf8_cont b3 \<and> utf8_cont b4 then 4 else 0
         | _ \<Rightarrow> 0)
      else 0)"

definition RuneError :: string where
  "RuneError = [CHR 0xEF, CHR 0xBF, CHR 0xBD]"

function coerceUTF8 :: "string \<Rightarrow> string" where
  "coerceUTF8 [] = []"
| "coerceUTF8 (c # cs) =
     (if rune_len (c # cs) = 0 then RuneError @ coerceUTF8 cs
      else take (rune_len (c # cs)) (c # cs) @ coerceUTF8 (drop (rune_len (c # cs)) (c # cs)))"
  by pat_completeness auto
termination
  by (relation "measure length") auto

declare coerceUTF8.simps(2) [simp del]

declare rune_len.simps(2) [simp del]

text \<open>
  The JSON part of the example package again, now with strings (also entry names)
  coerced, and with a decoder that stores generic values only, whatever the document
  holds. The other parts are those of \<open>ex_packages\<close>.
\<close>

fun doc_generic :: "other iface \<Rightarrow> error + other iface" where
  "doc_generic (IString str) = Inr (IString (coerceUTF8 str))"
| "doc_generic (IStrings strs) = Inr (ISlice (map (\<lambda>str. IString (coerceUTF8 str)) strs))"
| "doc_generic (ISlice vs) =
     (case sequence (map doc_generic vs) of Inl e \<Rightarrow> Inl e | Inr gs \<Rightarrow> Inr (ISlice gs))"
| "doc_generic (IOther (OInt n)) = Inr (IOther (OFloat64 n))"
| "doc_generic (IOther (OFloat64 n)) = Inr (IOther (OFloat64 n))"
| "doc_generic (IOther OChan) = Inl (Err ''json: unsupported type: chan int'')"

definition doc_Marshal :: "other iface \<Rightarrow> error + document" where
  "doc_Marshal v = (case doc_generic v of Inl e \<Rightarrow> Inl e | Inr g \<Rightarrow> Inr (ValueDoc g))"

fun doc_Unmarshal :: "document \<Rightarrow> error + other iface" where
  "doc_Unmarshal (ValueDoc g) = doc_generic g"
| "doc_Unmarshal (SnapshotsDoc sns) = Inl (Err ''json: not a single value'')"

definition doc_entry :: "other iface list snapshot \<Rightarrow> error + other iface list snapshot" where
  "doc_entry sn =
     (case sequence (map doc_generic (Values sn)) of
        Inl e \<Rightarrow> Inl e
      | Inr gs \<Rightarrow> Inr \<lparr>Name = coerceUTF8 (Name sn), Values = gs\<rparr>)"

definition doc_MarshalIndent :: "other iface list snapshot list \<Rightarrow> error + document" where
  "doc_MarshalIndent sns =
     (case sequence (map doc_entry sns) of
        Inl e \<Rightarrow> Inl e
      | Inr es \<Rightarrow> Inr (SnapshotsDoc (map Some es)))"

fun doc_pointer :: "other iface list snapshot option \<Rightarrow> error + other iface list snapshot option"
where
  "doc_pointer None = Inr None"
| "doc_pointer (Some sn) = (case doc_entry sn of Inl e \<Rightarrow> Inl e | Inr d \<Rightarrow> Inr (Some d))"

fun doc_UnmarshalSnapshots :: "document \<Rightarrow> error + other iface list snapshot option list" where
  "doc_UnmarshalSnapshots (SnapshotsDoc sns) = sequence (map doc_pointer sns)"
| "doc_UnmarshalSnapshots (ValueDoc g) = Inl (Err ''json: not a list of snapshots'')"

definition doc_packages :: "(other, document) packages" where
  "doc_packages =
     ex_packages
       \<lparr>json_Marshal := doc_Marshal,
        json_Unmarshal := doc_Unmarshal,
        json_MarshalIndent := doc_MarshalIndent,
        json_UnmarshalSnapshots := doc_UnmarshalSnapshots\<rparr>"

section \<open>Path derivation\<close>

lemma Replace_char:
  "a \<noteq> b \<Longrightarrow> n < 0 \<Longrightarrow> Replace s [a] [b] n = map (\<lambda>c. if c = a then b else c) s"
proof (induction s arbitrary: n)
  case Nil
  show ?case by (simp add: Replace.simps)
next
  case (Cons c s)
  have "n - 1 < 0" using Cons.prems by simp
  with Cons show ?case by (subst Replace.simps) simp
qed

lemma sanitize_Replace:
  "Replace (Replace s ''/'' ''-'' (-1)) '':'' ''-'' (-1) = sanitize s"
  by (simp add: Replace_char sanitize_def)

lemma golden_path_eq:
  "golden_path tn d =
     filepath_Join ''testdata''
       (sanitize tn @ (if d = [] then [] else ''_'' @ sanitize d) @ ''.snapshots.json'')"
  by (simp add: golden_path_def nameSuffix_def sanitize_Replace)

text \<open>
  C9. For every test identifier and discriminator, the path Verify uses is the directory
  \<^verbatim>\<open>testdata\<close> joined with the sanitized identifier, then \<^verbatim>\<open>_\<close> and the sanitized
  discriminator exactly when the discriminator is not empty, then \<^verbatim>\<open>.snapshots.json\<close>,
  where sanitizing replaces every \<^verbatim>\<open>/\<close> and every \<^verbatim>\<open>:\<close> by \<^verbatim>\<open>-\<close>.
\<close>

theorem golden_path_layout:
  "golden_path t_Name d =
     filepath_Join ''testdata''
       (sanitize t_Name @ (if d = [] then [] else ''_'' @ sanitize d) @ ''.snapshots.json'')"
proof -
  have ident: "Replace (Replace t_Name ''/'' ''-'' (-1)) '':'' ''-'' (-1) = sanitize t_Name"
    by (rule sanitize_Replace)
  have suffix: "nameSuffix d = (if d = [] then [] else ''_'' @ sanitize d)"
    unfolding nameSuffix_def sanitize_Replace by simp
  show ?thesis
    unfolding golden_path_def ident suffix by (rule refl)
qed

lemma sanitize_Nil: "sanitize [] = []"
  by (simp add: sanitize_def)

lemma sanitize_empty: "(sanitize d = []) = (d = [])"
  by (simp add: sanitize_def)

lemma suffix_eq:
  "((if d1 = [] then [] else CHR ''_'' # sanitize d1) = (if d2 = [] then [] else CHR ''_'' # sanitize d2))
   = (sanitize d1 = sanitize d2)"
proof (cases "d1 = []")
  case True
  then show ?thesis using sanitize_empty [of d2] by (auto simp: sanitize_Nil)
next
  case False
  then show ?thesis using sanitize_empty [of d1] by (auto simp: sanitize_Nil)
qed

text \<open>
  C2. Two distinct discriminators do not always give two distinct golden files, because
  sanitizing is not injective: \<^verbatim>\<open>a/b\<close> and \<^verbatim>\<open>a:b\<close> both become \<^verbatim>\<open>a-b\<close>. What
  holds: for one test identifier, \<^verbatim>\<open>NewNamed(t, d1)\<close> and \<^verbatim>\<open>NewNamed(t, d2)\<close> derive
  the same golden file exactly when the sanitized discriminators are equal, so two
  discriminators that still differ after sanitizing get two distinct files.
\<close>

theorem golden_path_discriminator:
  "(golden_path (TName (s_t (NewNamed t d1))) (s_name (NewNamed t d1)) =
    golden_path (TName (s_t (NewNamed t d2))) (s_name (NewNamed t d2)))
   = (sanitize d1 = sanitize d2)"
proof -
  have "(golden_path (TName t) d1 = golden_path (TName t) d2)
      = ((if d1 = [] then [] else CHR ''_'' # sanitize d1) = (if d2 = [] then [] else CHR ''_'' # sanitize d2))"
    unfolding golden_path_eq filepath_Join_def by simp
  then show ?thesis
    by (simp only: suffix_eq NewNamed_def Snapshotter.simps)
qed

text \<open>
  The two discriminators \<^verbatim>\<open>a/b\<close> and \<^verbatim>\<open>a:b\<close> are distinct and share a golden file.
\<close>

theorem golden_path_collision:
  "''a/b'' \<noteq> ''a:b'' \<and>
   golden_path (TName (s_t (NewNamed ex_t ''a/b''))) (s_name (NewNamed ex_t ''a/b'')) =
   golden_path (TName (s_t (NewNamed ex_t ''a:b''))) (s_name (NewNamed ex_t ''a:b''))"
  by (simp add: golden_path_eq NewNamed_def sanitize_def)

section \<open>Snapshot\<close>

text \<open>
  What the range loop has done when it stops: the slice keeps its length, no other slice
  is touched, the elements before the start index are as they were, and either every
  element from the start index on has been replaced by its round trip, or the loop
  stopped at the first element \<open>k\<close> whose round trip fails, with the elements before
  \<open>k\<close> replaced and those from \<open>k\<close> on untouched.
\<close>

lemma Snapshot_range_spec:
  "n = length (h a) \<Longrightarrow> Snapshot_range pk a n i h = (res, h') \<Longrightarrow>
   length (h' a) = n \<and> (\<forall>b. b \<noteq> a \<longrightarrow> h' b = h b) \<and> (\<forall>j<i. h' a ! j = h a ! j) \<and>
   (case res of
      None \<Rightarrow> (\<forall>j. i \<le> j \<and> j < n \<longrightarrow> jsonRoundTrip pk (h a ! j) = Inr (h' a ! j))
    | Some (v, err) \<Rightarrow>
        (\<exists>k. i \<le> k \<and> k < n \<and> v = h a ! k \<and> jsonRoundTrip pk (h a ! k) = Inl err \<and>
             (\<forall>j. i \<le> j \<and> j < k \<longrightarrow> jsonRoundTrip pk (h a ! j) = Inr (h' a ! j)) \<and>
             (\<forall>j. k \<le> j \<and> j < n \<longrightarrow> h' a ! j = h a ! j)))"
proof (induction pk a n i h arbitrary: res h' rule: Snapshot_range.induct)
  case (1 pk a n i h)
  show ?case
  proof (cases "i < n")
    case False
    then have "Snapshot_range pk a n i h = (None, h)"
      by (subst Snapshot_range.simps) simp
    with "1.prems" have "res = None" "h' = h"
      by auto
    with False "1.prems"(1) show ?thesis by auto
  next
    case True
    show ?thesis
    proof (cases "jsonRoundTrip pk (h a ! i)")
      case (Inl err)
      with True have "Snapshot_range pk a n i h = (Some (h a ! i, err), h)"
        by (subst Snapshot_range.simps) simp
      with "1.prems" have "res = Some (h a ! i, err)" "h' = h"
        by auto
      with True Inl "1.prems" show ?thesis
        by auto
    next
      case (Inr r)
      let ?h = "h(a := (h a)[i := r])"
      from True Inr have "Snapshot_range pk a n i h = Snapshot_range pk a n (Suc i) ?h"
        by (subst Snapshot_range.simps) simp
      with "1.prems" have run: "Snapshot_range pk a n (Suc i) ?h = (res, h')"
        by simp
      have len: "n = length (?h a)" using "1.prems" by simp
      note IH = "1.IH" [OF True Inr len run]
      have same: "?h a ! j = h a ! j" if "j \<noteq> i" for j using that by simp
      have at_i: "h' a ! i = r"
        using IH True "1.prems"(1) by simp
      show ?thesis
      proof (cases res)
        case None
        with IH have rest: "\<forall>j. Suc i \<le> j \<and> j < n \<longrightarrow> jsonRoundTrip pk (?h a ! j) = Inr (h' a ! j)"
          by simp
        have "jsonRoundTrip pk (h a ! j) = Inr (h' a ! j)" if "i \<le> j" "j < n" for j
        proof (cases "j = i")
          case True
          then show ?thesis using Inr at_i by simp
        next
          case False
          with that rest have "jsonRoundTrip pk (?h a ! j) = Inr (h' a ! j)" by simp
          with False show ?thesis by simp
        qed
        with IH None show ?thesis by auto
      next
        case (Some ve)
        obtain v err where ve: "ve = (v, err)" by (cases ve)
        with IH Some obtain k where k: "Suc i \<le> k" "k < n" "v = ?h a ! k"
          "jsonRoundTrip pk (?h a ! k) = Inl err"
          "\<forall>j. Suc i \<le> j \<and> j < k \<longrightarrow> jsonRoundTrip pk (?h a ! j) = Inr (h' a ! j)"
          "\<forall>j. k \<le> j \<and> j < n \<longrightarrow> h' a ! j = ?h a ! j"
          by auto
        have pre: "jsonRoundTrip pk (h a ! j) = Inr (h' a ! j)" if "i \<le> j" "j < k" for j
        proof (cases "j = i")
          case True
          then show ?thesis using Inr at_i by simp
        next
          case False
          with that k(5) have "jsonRoundTrip pk (?h a ! j) = Inr (h' a ! j)" by simp
          with False show ?thesis by simp
        qed
        have post: "h' a ! j = h a ! j" if "k \<le> j" "j < n" for j
          using that k(1) k(6) by simp
        have "i \<le> k \<and> k < n \<and> v = h a ! k \<and> jsonRoundTrip pk (h a ! k) = Inl err"
          using k by simp
        with pre post IH Some ve show ?thesis by auto
      qed
    qed
  qed
qed

lemma Snapshot_unfold:
  "Snapshot pk nm a (h, s) =
     (case Snapshot_range pk a (length (h a)) 0 h of
        (Some (v, err), h') \<Rightarrow> (h', s\<lparr>s_t := Errorf (RoundtripError nm v err) (s_t s)\<rparr>)
      | (None, h') \<Rightarrow> (h', s\<lparr>s_snapshots := s_snapshots s @ [\<lparr>Name = nm, Values = a\<rparr>]\<rparr>))"
  by (simp add: Snapshot_def)

lemma Snapshot_succeeds:
  assumes ok: "\<forall>j<length (h a). \<exists>r. jsonRoundTrip pk (h a ! j) = Inr r"
    and run: "Snapshot pk nm a (h, s) = (h', s')"
  shows "s' = s\<lparr>s_snapshots := s_snapshots s @ [\<lparr>Name = nm, Values = a\<rparr>]\<rparr> \<and>
         length (h' a) = length (h a) \<and> (\<forall>b. b \<noteq> a \<longrightarrow> h' b = h b) \<and>
         (\<forall>j<length (h a). jsonRoundTrip pk (h a ! j) = Inr (h' a ! j))"
proof -
  obtain res h1 where r: "Snapshot_range pk a (length (h a)) 0 h = (res, h1)"
    by (cases "Snapshot_range pk a (length (h a)) 0 h")
  note spec = Snapshot_range_spec [OF refl r]
  have "res = None"
  proof (cases res)
    case (Some ve)
    obtain v err where "ve = (v, err)" by (cases ve)
    with spec Some obtain k where "k < length (h a)" "jsonRoundTrip pk (h a ! k) = Inl err"
      by auto
    with ok show ?thesis by fastforce
  qed simp
  with r run spec show ?thesis
    by (auto simp: Snapshot_unfold)
qed

lemma Snapshot_fails:
  assumes k: "k < length (h a)"
    and ok: "\<forall>j<k. \<exists>r. jsonRoundTrip pk (h a ! j) = Inr r"
    and bad: "jsonRoundTrip pk (h a ! k) = Inl err"
    and run: "Snapshot pk nm a (h, s) = (h', s')"
  shows "s' = s\<lparr>s_t := Errorf (RoundtripError nm (h a ! k) err) (s_t s)\<rparr> \<and>
         length (h' a) = length (h a) \<and> (\<forall>b. b \<noteq> a \<longrightarrow> h' b = h b) \<and>
         (\<forall>j<k. jsonRoundTrip pk (h a ! j) = Inr (h' a ! j)) \<and>
         (\<forall>j. k \<le> j \<and> j < length (h a) \<longrightarrow> h' a ! j = h a ! j)"
proof -
  obtain res h1 where r: "Snapshot_range pk a (length (h a)) 0 h = (res, h1)"
    by (cases "Snapshot_range pk a (length (h a)) 0 h")
  note spec = Snapshot_range_spec [OF refl r]
  show ?thesis
  proof (cases res)
    case None
    with spec k have "jsonRoundTrip pk (h a ! k) = Inr (h1 a ! k)" by simp
    with bad show ?thesis by simp
  next
    case (Some ve)
    obtain v e where ve: "ve = (v, e)" by (cases ve)
    with spec Some obtain k' where k': "k' < length (h a)" "v = h a ! k'"
      "jsonRoundTrip pk (h a ! k') = Inl e"
      "\<forall>j. j < k' \<longrightarrow> jsonRoundTrip pk (h a ! j) = Inr (h1 a ! j)"
      "\<forall>j. k' \<le> j \<and> j < length (h a) \<longrightarrow> h1 a ! j = h a ! j"
      by auto
    have "\<not> k' < k" using ok k'(3) by fastforce
    moreover have "\<not> k < k'" using bad k'(4) by fastforce
    ultimately have "k' = k" by simp
    with k' bad have "e = err" by simp
    with \<open>k' = k\<close> k' Some ve r run spec show ?thesis
      by (auto simp: Snapshot_unfold)
  qed
qed

lemma first_failure:
  assumes "\<not> (\<forall>j<length vs. \<exists>r. f (vs ! j) = Inr r)"
  shows "\<exists>k err. k < length vs \<and> (\<forall>j<k. \<exists>r. f (vs ! j) = Inr r) \<and> f (vs ! k) = Inl (err :: 'e)"
proof -
  let ?P = "\<lambda>j. j < length vs \<and> (\<nexists>r. f (vs ! j) = Inr r)"
  from assms have ex: "\<exists>j. ?P j" by auto
  define k where "k = (LEAST j. ?P j)"
  have Pk: "?P k" unfolding k_def using ex by (rule LeastI_ex)
  have least: "\<not> ?P j" if "j < k" for j
    using that not_less_Least unfolding k_def by blast
  obtain err where "f (vs ! k) = Inl err"
    using Pk by (cases "f (vs ! k)") auto
  moreover have "\<forall>j<k. \<exists>r. f (vs ! j) = Inr r"
    using least Pk by (meson less_trans)
  ultimately show ?thesis using Pk by blast
qed

lemma map_nth_eq:
  "length xs = length ys \<Longrightarrow> (\<forall>j<length ys. g (ys ! j) = Inr (xs ! j)) \<Longrightarrow> map Inr xs = map g ys"
  by (auto simp: list_eq_iff_nth_eq)

subsection \<open>The example package\<close>

lemma ex_store_0: "ex_store 0 = [IOther (OInt 2)]" by (simp add: ex_store_def)

lemma ex_store_2: "ex_store 2 = [IOther (OInt 1), IOther OChan, IOther (OInt 5)]" by (simp add: ex_store_def)

lemma ex_roundtrip:
  "jsonRoundTrip ex_packages (IOther (OInt n)) = Inr (IOther (OFloat64 n))"
  "jsonRoundTrip ex_packages (IOther OChan) = Inl (Err ''json: unsupported type: chan int'')"
  by (simp_all add: jsonRoundTrip_def ex_packages_def ex_Marshal_def)

text \<open>
  C5. Snapshot is all or nothing. If every value of the call normalizes, the call appends
  exactly one entry, with the given name and the slice that now holds the normalized
  values, at the end of the set, and reports nothing. If some value fails to normalize,
  the call leaves the set as it was and reports one error, which carries the name and
  the first value that failed with its error. No slice other than the argument changes,
  so the values of the entries captured from other slices stay as they were.
\<close>

theorem Snapshot_all_or_nothing:
  assumes run: "Snapshot pk nm a (h, s) = (h', s')"
  shows "((\<forall>j<length (h a). \<exists>r. jsonRoundTrip pk (h a ! j) = Inr r) \<longrightarrow>
            s' = s\<lparr>s_snapshots := s_snapshots s @ [\<lparr>Name = nm, Values = a\<rparr>]\<rparr> \<and>
            map Inr (h' a) = map (jsonRoundTrip pk) (h a))
       \<and> (\<not> (\<forall>j<length (h a). \<exists>r. jsonRoundTrip pk (h a ! j) = Inr r) \<longrightarrow>
            (\<exists>k err. k < length (h a) \<and> jsonRoundTrip pk (h a ! k) = Inl err \<and>
               (\<forall>j<k. \<exists>r. jsonRoundTrip pk (h a ! j) = Inr r) \<and>
               s' = s\<lparr>s_t := Errorf (RoundtripError nm (h a ! k) err) (s_t s)\<rparr>))
       \<and> (\<forall>b. b \<noteq> a \<longrightarrow> h' b = h b)"
proof (cases "\<forall>j<length (h a). \<exists>r. jsonRoundTrip pk (h a ! j) = Inr r")
  case True
  note ok = Snapshot_succeeds [OF True run]
  then have "map Inr (h' a) = map (jsonRoundTrip pk) (h a)"
    by (intro map_nth_eq) simp_all
  with True ok show ?thesis by simp
next
  case False
  then obtain k err where k: "k < length (h a)"
    "\<forall>j<k. \<exists>r. jsonRoundTrip pk (h a ! j) = Inr r" "jsonRoundTrip pk (h a ! k) = Inl err"
    using first_failure [of "h a" "jsonRoundTrip pk"] by blast
  note bad = Snapshot_fails [OF k run]
  with False k show ?thesis by blast
qed

text \<open>
  On the example store: the call on the slice at 0 appends its entry; the call on the slice
  at 2, whose second element is a channel, only reports.
\<close>

theorem Snapshot_all_or_nothing_witness:
  "Snapshot ex_packages ''e'' 0 (ex_store, New ex_t) =
     (fst (Snapshot ex_packages ''e'' 0 (ex_store, New ex_t)),
      (New ex_t)\<lparr>s_snapshots := [\<lparr>Name = ''e'', Values = 0\<rparr>]\<rparr>)
   \<and> fst (Snapshot ex_packages ''e'' 0 (ex_store, New ex_t)) 0 = [IOther (OFloat64 2)]
   \<and> jsonRoundTrip ex_packages (ex_store 2 ! 1) = Inl (Err ''json: unsupported type: chan int'')
   \<and> snd (Snapshot ex_packages ''e'' 2 (ex_store, New ex_t)) =
       (New ex_t)\<lparr>s_t := Errorf (RoundtripError ''e'' (IOther OChan)
                                 (Err ''json: unsupported type: chan int'')) ex_t\<rparr>"
proof -
  let ?ok = "Snapshot ex_packages ''e'' 0 (ex_store, New ex_t)"
  let ?bad = "Snapshot ex_packages ''e'' 2 (ex_store, New ex_t)"
  have all_ok: "\<forall>j<length (ex_store 0). \<exists>r. jsonRoundTrip ex_packages (ex_store 0 ! j) = Inr r"
    by (simp add: ex_store_0 ex_roundtrip)
  have chan: "jsonRoundTrip ex_packages (ex_store 2 ! 1) = Inl (Err ''json: unsupported type: chan int'')"
    by (simp add: ex_store_2 ex_roundtrip)
  have first: "jsonRoundTrip ex_packages (ex_store 2 ! 0) = Inr (IOther (OFloat64 1))"
    by (simp add: ex_store_2 ex_roundtrip)
  have len: "length (ex_store 2) = 3" by (simp add: ex_store_2)
  have not_ok: "\<not> (\<forall>j<length (ex_store 2). \<exists>r. jsonRoundTrip ex_packages (ex_store 2 ! j) = Inr r)"
  proof
    assume "\<forall>j<length (ex_store 2). \<exists>r. jsonRoundTrip ex_packages (ex_store 2 ! j) = Inr r"
    with len have "\<exists>r. jsonRoundTrip ex_packages (ex_store 2 ! 1) = Inr r" by simp
    with chan show False by simp
  qed
  note ok_thm = Snapshot_all_or_nothing
    [of ex_packages "''e''" 0 ex_store "New ex_t" "fst ?ok" "snd ?ok"]
  from ok_thm all_ok
  have ok: "snd ?ok = (New ex_t)\<lparr>s_snapshots := s_snapshots (New ex_t) @ [\<lparr>Name = ''e'', Values = 0\<rparr>]\<rparr>"
    "map Inr (fst ?ok 0) = map (jsonRoundTrip ex_packages) (ex_store 0)"
    by simp_all
  from ok(2) have ok0: "fst ?ok 0 = [IOther (OFloat64 2)]"
    by (auto simp: ex_store_0 ex_roundtrip map_eq_Cons_conv)
  from ok(1) have ok1: "?ok = (fst ?ok, (New ex_t)\<lparr>s_snapshots := [\<lparr>Name = ''e'', Values = 0\<rparr>]\<rparr>)"
    by (simp add: New_def prod_eq_iff)
  note bad_thm = Snapshot_all_or_nothing
    [of ex_packages "''e''" 2 ex_store "New ex_t" "fst ?bad" "snd ?bad"]
  from bad_thm not_ok
  obtain k err where k: "k < length (ex_store 2)"
    "jsonRoundTrip ex_packages (ex_store 2 ! k) = Inl err"
    "\<forall>j<k. \<exists>r. jsonRoundTrip ex_packages (ex_store 2 ! j) = Inr r"
    "snd ?bad = (New ex_t)\<lparr>s_t := Errorf (RoundtripError ''e'' (ex_store 2 ! k) err) (s_t (New ex_t))\<rparr>"
    by auto
  have "k = 1"
  proof (rule ccontr)
    assume "k \<noteq> 1"
    then consider "k = 0" | "1 < k" by linarith
    then show False
    proof cases
      case 1
      with k(2) first show False by simp
    next
      case 2
      with k(3) have "\<exists>r. jsonRoundTrip ex_packages (ex_store 2 ! 1) = Inr r" by simp
      with chan show False by simp
    qed
  qed
  with k(2) chan have "err = Err ''json: unsupported type: chan int''" by simp
  with k(4) \<open>k = 1\<close> have bad: "snd ?bad =
       (New ex_t)\<lparr>s_t := Errorf (RoundtripError ''e'' (IOther OChan)
                                 (Err ''json: unsupported type: chan int'')) ex_t\<rparr>"
    by (simp add: ex_store_2 New_def)
  from ok1 ok0 chan bad show ?thesis by (intro conjI)
qed

text \<open>
  C10. Snapshot overwrites the caller's slice in place. The slice keeps its length and no
  other slice changes. If every element normalizes, each element has been replaced by its
  normalized form. If normalization first fails at index \<open>i\<close>, the elements before
  \<open>i\<close> have been replaced by their normalized forms, the elements from \<open>i\<close> on are
  as they were, and no entry has been appended.
\<close>

theorem Snapshot_overwrites_in_place:
  assumes run: "Snapshot pk nm a (h, s) = (h', s')"
  shows "length (h' a) = length (h a) \<and> (\<forall>b. b \<noteq> a \<longrightarrow> h' b = h b)
       \<and> ((\<forall>j<length (h a). \<exists>r. jsonRoundTrip pk (h a ! j) = Inr r) \<longrightarrow>
            map Inr (h' a) = map (jsonRoundTrip pk) (h a))
       \<and> (\<forall>i err. i < length (h a) \<and> (\<forall>j<i. \<exists>r. jsonRoundTrip pk (h a ! j) = Inr r) \<and>
              jsonRoundTrip pk (h a ! i) = Inl err \<longrightarrow>
            map Inr (take i (h' a)) = map (jsonRoundTrip pk) (take i (h a)) \<and>
            drop i (h' a) = drop i (h a) \<and> s_snapshots s' = s_snapshots s)"
proof -
  have len: "length (h' a) = length (h a) \<and> (\<forall>b. b \<noteq> a \<longrightarrow> h' b = h b)"
    using Snapshot_succeeds [OF _ run]
      Snapshot_fails [OF _ _ _ run] first_failure [of "h a" "jsonRoundTrip pk"]
    by metis
  have ok: "map Inr (h' a) = map (jsonRoundTrip pk) (h a)"
    if "\<forall>j<length (h a). \<exists>r. jsonRoundTrip pk (h a ! j) = Inr r"
    using Snapshot_succeeds [OF that run] by (intro map_nth_eq) simp_all
  have bad: "map Inr (take i (h' a)) = map (jsonRoundTrip pk) (take i (h a)) \<and>
      drop i (h' a) = drop i (h a) \<and> s_snapshots s' = s_snapshots s"
    if i: "i < length (h a)" "\<forall>j<i. \<exists>r. jsonRoundTrip pk (h a ! j) = Inr r"
      "jsonRoundTrip pk (h a ! i) = Inl err" for i err
  proof -
    note f = Snapshot_fails [OF i run]
    have "map Inr (take i (h' a)) = map (jsonRoundTrip pk) (take i (h a))"
      using f i(1) by (intro map_nth_eq) simp_all
    moreover have "drop i (h' a) = drop i (h a)"
      using f i(1) by (auto simp: list_eq_iff_nth_eq)
    ultimately show ?thesis using f by simp
  qed
  from len ok bad show ?thesis by blast
qed

text \<open>
  On the example store: of the slice at 2 the first element has become a float64, and the
  channel and the element after it are as they were.
\<close>

theorem Snapshot_overwrites_in_place_witness:
  "jsonRoundTrip ex_packages (ex_store 2 ! 0) = Inr (IOther (OFloat64 1))
   \<and> jsonRoundTrip ex_packages (ex_store 2 ! 1) = Inl (Err ''json: unsupported type: chan int'')
   \<and> fst (Snapshot ex_packages ''e'' 2 (ex_store, New ex_t)) 2 =
       [IOther (OFloat64 1), IOther OChan, IOther (OInt 5)]
   \<and> fst (Snapshot ex_packages ''e'' 2 (ex_store, New ex_t)) 0 = ex_store 0
   \<and> s_snapshots (snd (Snapshot ex_packages ''e'' 2 (ex_store, New ex_t))) = []"
proof -
  let ?bad = "Snapshot ex_packages ''e'' 2 (ex_store, New ex_t)"
  have chan: "jsonRoundTrip ex_packages (ex_store 2 ! 1) = Inl (Err ''json: unsupported type: chan int'')"
    by (simp add: ex_store_2 ex_roundtrip)
  have first: "jsonRoundTrip ex_packages (ex_store 2 ! 0) = Inr (IOther (OFloat64 1))"
    by (simp add: ex_store_2 ex_roundtrip)
  have before: "\<forall>j<1. \<exists>r. jsonRoundTrip ex_packages (ex_store 2 ! j) = Inr r"
    using first by simp
  have len: "1 < length (ex_store 2)" by (simp add: ex_store_2)
  have run: "?bad = (fst ?bad, snd ?bad)" by simp
  note t = Snapshot_overwrites_in_place [OF run]
  from t have frame: "fst ?bad 0 = ex_store 0" by simp
  from t len before chan have parts:
    "map Inr (take 1 (fst ?bad 2)) = map (jsonRoundTrip ex_packages) (take 1 (ex_store 2))
     \<and> drop 1 (fst ?bad 2) = drop 1 (ex_store 2)
     \<and> s_snapshots (snd ?bad) = s_snapshots (New ex_t)"
    by blast
  from parts have "take 1 (fst ?bad 2) = [IOther (OFloat64 1)]"
    by (auto simp: ex_store_2 ex_roundtrip map_eq_Cons_conv)
  moreover from parts have "drop 1 (fst ?bad 2) = [IOther OChan, IOther (OInt 5)]"
    by (simp add: ex_store_2)
  ultimately have "take 1 (fst ?bad 2) @ drop 1 (fst ?bad 2) =
      [IOther (OFloat64 1), IOther OChan, IOther (OInt 5)]"
    by simp
  then have whole: "fst ?bad 2 = [IOther (OFloat64 1), IOther OChan, IOther (OInt 5)]"
    by (simp only: append_take_drop_id)
  from parts have "s_snapshots (snd ?bad) = []" by (simp add: New_def)
  with first chan whole frame show ?thesis by (intro conjI)
qed

section \<open>Diffs\<close>

lemma diffString_refl: "diff_exact pk \<Longrightarrow> diffString pk a a = []"
  by (simp add: diff_exact_def diffString_def)

lemma diffString_empty_iff:
  "diff_exact pk \<Longrightarrow> lines_exact pk \<Longrightarrow>
   (diffString pk a b = []) = (coerceToString pk a = coerceToString pk b)"
  by (simp add: diff_exact_def lines_exact_def diffString_def)

lemma names_diff:
  assumes "diff_exact pk" "lines_exact pk" "names_exact pk"
  shows "(diffString pk (IStrings xs) (IStrings ys) = []) = (xs = ys)"
  using assms by (simp add: diffString_empty_iff coerceToString_def names_exact_def)

text \<open>
  The example package meets the three requirements.
\<close>

lemma ex_diff_exact: "diff_exact ex_packages"
  by (simp add: diff_exact_def ex_packages_def ex_GetUnifiedDiffString_def)

lemma split_after_nonempty: "split_after s \<noteq> []"
  by (induction s) (auto split: list.splits)

lemma concat_split_after: "concat (split_after s) = s"
  by (induction s) (auto split: list.splits simp: split_after_nonempty)

lemma concat_ex_SplitLines: "concat (ex_SplitLines s) = s @ [CHR 0x0A]"
proof -
  have "concat (butlast (split_after s) @ [last (split_after s)]) = s"
    using split_after_nonempty [of s] by (simp add: concat_split_after)
  then show ?thesis by (simp add: ex_SplitLines_def Let_def)
qed

lemma ex_lines_exact: "lines_exact ex_packages"
proof -
  have "x = y" if "ex_SplitLines x = ex_SplitLines y" for x y
  proof -
    from that have "concat (ex_SplitLines x) = concat (ex_SplitLines y)" by simp
    then show ?thesis by (simp add: concat_ex_SplitLines)
  qed
  then show ?thesis by (auto simp: lines_exact_def ex_packages_def)
qed

lemma ex_quote_prefix_free:
  "ex_quote a @ r = ex_quote b @ r' \<Longrightarrow> a = b \<and> r = r'"
proof (induction a arbitrary: b)
  case Nil
  then show ?case by (cases b) auto
next
  case (Cons c a)
  then show ?case by (cases b) auto
qed

lemma ex_quote_nonempty: "ex_quote a \<noteq> []"
  by (cases a) auto

lemma concat_ex_quote_inj:
  "concat (map ex_quote xs) = concat (map ex_quote ys) \<Longrightarrow> xs = ys"
proof (induction xs arbitrary: ys)
  case Nil
  then show ?case by (cases ys) (auto simp: ex_quote_nonempty)
next
  case (Cons x xs)
  show ?case
  proof (cases ys)
    case Nil
    with Cons.prems show ?thesis by (auto simp: ex_quote_nonempty)
  next
    case (Cons y ys')
    with Cons.prems have "ex_quote x @ concat (map ex_quote xs) = ex_quote y @ concat (map ex_quote ys')"
      by simp
    then have "x = y \<and> concat (map ex_quote xs) = concat (map ex_quote ys')"
      by (rule ex_quote_prefix_free)
    with Cons.IH Cons show ?thesis by auto
  qed
qed

lemma ex_names_exact: "names_exact ex_packages"
  by (auto simp: names_exact_def ex_packages_def dest: concat_ex_quote_inj)

section \<open>The JSON round trip\<close>

lemma rereads_roundtrip: "json_rereads pk v g = (jsonRoundTrip pk v = Inr g)"
  by (auto simp: json_rereads_def jsonRoundTrip_def split: sum.splits)

lemma Unmarshal_result_stable:
  assumes "json_reads_back pk" "json_Unmarshal pk bytes = Inr g"
  shows "jsonRoundTrip pk g = Inr g"
proof -
  from assms have "json_rereads pk g g"
    unfolding json_reads_back_def by blast
  then show ?thesis by (simp add: rereads_roundtrip)
qed

lemma jsonRoundTrip_Unmarshal:
  "jsonRoundTrip pk v = Inr r \<Longrightarrow> \<exists>bytes. json_Marshal pk v = Inr bytes \<and> json_Unmarshal pk bytes = Inr r"
  by (auto simp: jsonRoundTrip_def split: sum.splits)

subsection \<open>The instance with coerced strings\<close>

lemma rune_len_le: "rune_len s \<le> length s"
  by (cases s) (auto simp: rune_len.simps Let_def split: list.splits)

lemma rune_len_RuneError: "rune_len (RuneError @ t) = 3"
  by (simp add: RuneError_def rune_len.simps utf8_second_def utf8_cont_def)

lemma rune_len_prefix:
  "rune_len s = k \<Longrightarrow> 0 < k \<Longrightarrow> rune_len (take k s @ t) = k"
  by (cases s) (auto simp: rune_len.simps Let_def split: list.splits if_splits)

lemma coerceUTF8_rune:
  assumes "rune_len s = k" "0 < k"
  shows "coerceUTF8 (take k s @ t) = take k s @ coerceUTF8 t"
proof -
  have len: "length (take k s) = k" using assms rune_len_le [of s] by simp
  then obtain c cs where c: "take k s @ t = c # cs"
    using assms(2) by (cases "take k s @ t") auto
  have r: "rune_len (c # cs) = k"
    using rune_len_prefix [OF assms, of t] c by simp
  have "coerceUTF8 (c # cs) = take k (c # cs) @ coerceUTF8 (drop k (c # cs))"
    using r assms(2) by (simp add: coerceUTF8.simps(2))
  then show ?thesis using c len by (metis append_eq_conv_conj)
qed

lemma coerceUTF8_RuneError: "coerceUTF8 (RuneError @ t) = RuneError @ coerceUTF8 t"
proof -
  have "rune_len (RuneError @ []) = 3" by (rule rune_len_RuneError)
  then have "coerceUTF8 (take 3 RuneError @ t) = take 3 RuneError @ coerceUTF8 t"
    by (intro coerceUTF8_rune) simp_all
  then show ?thesis by (simp add: RuneError_def)
qed

lemma coerceUTF8_idem: "coerceUTF8 (coerceUTF8 s) = coerceUTF8 s"
proof (induction s rule: coerceUTF8.induct)
  case 1
  show ?case by simp
next
  case (2 c cs)
  show ?case
  proof (cases "rune_len (c # cs) = 0")
    case True
    with 2 show ?thesis
      by (simp add: coerceUTF8.simps(2) coerceUTF8_RuneError)
  next
    case False
    then have pos: "0 < rune_len (c # cs)" by simp
    from 2(2) [OF False] pos show ?thesis
      by (simp add: coerceUTF8.simps(2) [of c cs] coerceUTF8_rune [OF refl pos])
  qed
qed

lemma coerceUTF8_examples:
  "coerceUTF8 [CHR 0xFF] = RuneError"
  "coerceUTF8 ''id'' = ''id''"
  "coerceUTF8 ''e1'' = ''e1''"
  "coerceUTF8 ''e2'' = ''e2''"
  by code_simp+

lemma sequence_map_Inr: "sequence (map Inr xs) = Inr xs"
  by (induction xs) simp_all

lemma sequence_Inr_D: "sequence rs = Inr xs \<Longrightarrow> rs = map Inr xs"
proof (induction rs arbitrary: xs rule: sequence.induct)
  case 1
  then show ?case by simp
next
  case (2 e rs)
  then show ?case by simp
next
  case (3 x rs)
  then show ?case by (auto split: sum.splits)
qed

lemma sequence_Inr: "(sequence rs = Inr xs) = (rs = map Inr xs)"
  using sequence_Inr_D sequence_map_Inr by blast

lemma doc_generic_idem: "doc_generic v = Inr g \<Longrightarrow> doc_generic g = Inr g"
proof (induction v arbitrary: g rule: doc_generic.induct)
  case (1 str)
  then show ?case by (auto simp: coerceUTF8_idem)
next
  case (2 strs)
  have "sequence (map doc_generic (map (\<lambda>str. IString (coerceUTF8 str)) strs)) =
      Inr (map (\<lambda>str. IString (coerceUTF8 str)) strs)"
    by (simp add: sequence_Inr coerceUTF8_idem comp_def)
  with 2 show ?case by auto
next
  case (3 vs)
  from "3.prems" obtain gs where gs: "sequence (map doc_generic vs) = Inr gs" "g = ISlice gs"
    by (auto split: sum.splits)
  then have m: "map doc_generic vs = map Inr gs" by (simp add: sequence_Inr)
  then have len: "length vs = length gs" by (metis length_map)
  have "doc_generic (gs ! i) = Inr (gs ! i)" if "i < length gs" for i
  proof -
    from m that len have "doc_generic (vs ! i) = Inr (gs ! i)"
      by (metis nth_map)
    moreover have "vs ! i \<in> set vs" using that len by simp
    ultimately show ?thesis by (rule "3.IH" [rotated])
  qed
  then have "map doc_generic gs = map Inr gs"
    by (simp add: list_eq_iff_nth_eq)
  then have "sequence (map doc_generic gs) = Inr gs"
    by (simp add: sequence_Inr)
  then show ?case using gs(2) by simp
qed auto

lemma doc_roundtrip: "jsonRoundTrip doc_packages v = doc_generic v"
proof (cases "doc_generic v")
  case (Inl e)
  then show ?thesis by (simp add: jsonRoundTrip_def doc_packages_def doc_Marshal_def)
next
  case (Inr g)
  with doc_generic_idem [OF Inr] show ?thesis
    by (simp add: jsonRoundTrip_def doc_packages_def doc_Marshal_def)
qed

lemma doc_reads_back: "json_reads_back doc_packages"
proof -
  have "\<exists>bytes'. doc_Marshal g = Inr bytes' \<and> doc_Unmarshal bytes' = Inr g"
    if "doc_Unmarshal bytes = Inr g" for bytes g
  proof -
    from that obtain g0 where "doc_generic g0 = Inr g" by (cases bytes) auto
    then have "doc_generic g = Inr g" by (rule doc_generic_idem)
    then show ?thesis by (simp add: doc_Marshal_def)
  qed
  then show ?thesis by (simp add: json_reads_back_def json_rereads_def doc_packages_def)
qed

lemma doc_entry_idem: "doc_entry sn = Inr d \<Longrightarrow> doc_entry d = Inr d"
proof -
  assume "doc_entry sn = Inr d"
  then obtain gs where gs: "sequence (map doc_generic (Values sn)) = Inr gs"
    "d = \<lparr>Name = coerceUTF8 (Name sn), Values = gs\<rparr>"
    by (auto simp: doc_entry_def split: sum.splits)
  then have m: "map doc_generic (Values sn) = map Inr gs" by (simp add: sequence_Inr)
  then have len: "length (Values sn) = length gs" by (metis length_map)
  have "doc_generic (gs ! i) = Inr (gs ! i)" if "i < length gs" for i
  proof -
    from m that len have "doc_generic (Values sn ! i) = Inr (gs ! i)" by (metis nth_map)
    then show ?thesis by (rule doc_generic_idem)
  qed
  then have "map doc_generic gs = map Inr gs" by (simp add: list_eq_iff_nth_eq)
  then have "sequence (map doc_generic gs) = Inr gs" by (simp add: sequence_Inr)
  then show ?thesis using gs(2) by (simp add: doc_entry_def coerceUTF8_idem)
qed

lemma doc_entrywise: "json_entrywise doc_packages"
proof -
  have "\<exists>decoded. doc_UnmarshalSnapshots bytes = Inr (map Some decoded) \<and>
      list_all2
        (\<lambda>sn d. doc_generic (IString (Name sn)) = Inr (IString (Name d)) \<and>
                list_all2 (\<lambda>v g. doc_generic v = Inr g) (Values sn) (Values d))
        sns decoded"
    if "doc_MarshalIndent sns = Inr bytes" for sns bytes
  proof -
    from that obtain es where es: "sequence (map doc_entry sns) = Inr es"
      "bytes = SnapshotsDoc (map Some es)"
      by (auto simp: doc_MarshalIndent_def split: sum.splits)
    then have m: "map doc_entry sns = map Inr es" by (simp add: sequence_Inr)
    then have len: "length sns = length es" by (metis length_map)
    have at: "doc_entry (sns ! i) = Inr (es ! i)" if "i < length es" for i
      using m that len by (metis nth_map)
    have "doc_pointer (Some (es ! i)) = Inr (Some (es ! i))" if "i < length es" for i
      using doc_entry_idem [OF at [OF that]] by simp
    then have "map doc_pointer (map Some es) = map Inr (map Some es)"
      by (simp add: list_eq_iff_nth_eq)
    then have dec: "doc_UnmarshalSnapshots bytes = Inr (map Some es)"
      using es(2) by (simp add: sequence_Inr)
    have "doc_generic (IString (Name (sns ! i))) = Inr (IString (Name (es ! i))) \<and>
        list_all2 (\<lambda>v g. doc_generic v = Inr g) (Values (sns ! i)) (Values (es ! i))"
      if "i < length es" for i
    proof -
      from at [OF that] obtain gs where gs:
        "sequence (map doc_generic (Values (sns ! i))) = Inr gs"
        "es ! i = \<lparr>Name = coerceUTF8 (Name (sns ! i)), Values = gs\<rparr>"
        by (auto simp: doc_entry_def split: sum.splits)
      from gs(1) have "map doc_generic (Values (sns ! i)) = map Inr gs"
        by (simp add: sequence_Inr)
      then have "list_all2 (\<lambda>v g. doc_generic v = Inr g) (Values (sns ! i)) gs"
        by (auto simp: list_all2_conv_all_nth list_eq_iff_nth_eq)
      with gs(2) show ?thesis by simp
    qed
    then have "list_all2
        (\<lambda>sn d. doc_generic (IString (Name sn)) = Inr (IString (Name d)) \<and>
                list_all2 (\<lambda>v g. doc_generic v = Inr g) (Values sn) (Values d))
        sns es"
      using len by (simp add: list_all2_conv_all_nth)
    with dec show ?thesis by blast
  qed
  then show ?thesis
    unfolding json_entrywise_def rereads_roundtrip doc_roundtrip
    by (simp add: doc_packages_def)
qed

lemma doc_fields:
  "json_MarshalIndent doc_packages = doc_MarshalIndent"
  "json_UnmarshalSnapshots doc_packages = doc_UnmarshalSnapshots"
  "pretty_Sprint doc_packages = ex_Sprint"
  "difflib_SplitLines doc_packages = ex_SplitLines"
  "difflib_GetUnifiedDiffString doc_packages = ex_GetUnifiedDiffString"
  by (simp_all add: doc_packages_def ex_packages_def)

lemma doc_diff_exact: "diff_exact doc_packages"
  by (simp add: diff_exact_def doc_packages_def ex_packages_def ex_GetUnifiedDiffString_def)

lemma doc_names:
  "jsonRoundTrip doc_packages (IString ''e1'') = Inr (IString ''e1'')"
  "jsonRoundTrip doc_packages (IString ''e2'') = Inr (IString ''e2'')"
  by (simp_all add: doc_roundtrip coerceUTF8_examples)

subsection \<open>Idempotence\<close>



section \<open>Verify\<close>

lemmas ex_eval =
  run_test_def capture_def ex_calls_def Snapshot_def Snapshot_range.simps
  ex_store_def NewNamed_def New_def ex_t_def jsonRoundTrip_def ex_packages_def ex_Marshal_def
  ex_fs_def ex_MarshalIndent_def ex_entry_def deref_def ex_greeting_def
  ex_written_def ioutil_ReadFile_def

subsection \<open>No captured entries\<close>

text \<open>
  C6. With no captured entry: when the golden file does not exist, Verify in rewrite mode
  and Verify in compare mode both return without a report and without a change to the
  file system; when it exists, Verify in rewrite mode removes it and reports nothing, or,
  if the removal fails, reports the failure and returns with the file system as it was.
\<close>

theorem Verify_empty_capture:
  assumes "s_snapshots s = []"
  shows "(files fs (golden_path (TName (s_t s)) (s_name s)) = None \<and>
          failing fs Stat (golden_path (TName (s_t s)) (s_name s)) = None \<longrightarrow>
            Verify pk True h (fs, s) = Inr (fs, s) \<and> Verify pk False h (fs, s) = Inr (fs, s))
       \<and> (files fs (golden_path (TName (s_t s)) (s_name s)) \<noteq> None \<and>
          failing fs Remove (golden_path (TName (s_t s)) (s_name s)) = None \<longrightarrow>
            Verify pk True h (fs, s) =
              Inr (fs\<lparr>files := (files fs)(golden_path (TName (s_t s)) (s_name s) := None)\<rparr>, s))
       \<and> (files fs (golden_path (TName (s_t s)) (s_name s)) \<noteq> None \<and>
          failing fs Remove (golden_path (TName (s_t s)) (s_name s)) \<noteq> None \<longrightarrow>
            Verify pk True h (fs, s) =
              Inr (fs, s\<lparr>s_t := Errorf (RemoveFailed (golden_path (TName (s_t s)) (s_name s)))
                                 (s_t s)\<rparr>))"
  using assms
  by (auto simp: Verify_def Let_def os_IsNotExist_def os_Stat_def os_Remove_def
      split: option.splits)

theorem Verify_empty_capture_witness:
  "Verify ex_packages True ex_store (ex_fs Map.empty, New ex_t) = Inr (ex_fs Map.empty, New ex_t)
   \<and> Verify ex_packages False ex_store (ex_fs Map.empty, New ex_t) = Inr (ex_fs Map.empty, New ex_t)
   \<and> Verify ex_packages True ex_store
        (ex_fs [golden_path (TName ex_t) [] \<mapsto> ex_written], New ex_t)
       = Inr (ex_fs Map.empty, New ex_t)
   \<and> Verify ex_packages True ex_store
        (ex_fs_locked [golden_path (TName ex_t) [] \<mapsto> ex_written], New ex_t)
       = Inr (ex_fs_locked [golden_path (TName ex_t) [] \<mapsto> ex_written],
              (New ex_t)\<lparr>s_t := Errorf (RemoveFailed (golden_path (TName ex_t) [])) ex_t\<rparr>)"
proof -
  have p: "golden_path (TName (s_t (New ex_t))) (s_name (New ex_t)) = golden_path (TName ex_t) []"
    by (simp add: New_def)
  have e: "s_snapshots (New ex_t) = []" by (simp add: New_def)
  note absent = Verify_empty_capture [OF e, of "ex_fs Map.empty" ex_packages ex_store]
  note present = Verify_empty_capture
    [OF e, of "ex_fs [golden_path (TName ex_t) [] \<mapsto> ex_written]" ex_packages ex_store]
  note locked = Verify_empty_capture
    [OF e, of "ex_fs_locked [golden_path (TName ex_t) [] \<mapsto> ex_written]" ex_packages ex_store]
  from absent have a: "Verify ex_packages True ex_store (ex_fs Map.empty, New ex_t) = Inr (ex_fs Map.empty, New ex_t)
     \<and> Verify ex_packages False ex_store (ex_fs Map.empty, New ex_t) = Inr (ex_fs Map.empty, New ex_t)"
    by (simp add: ex_fs_def)
  from present have "Verify ex_packages True ex_store
        (ex_fs [golden_path (TName ex_t) [] \<mapsto> ex_written], New ex_t)
       = Inr ((ex_fs [golden_path (TName ex_t) [] \<mapsto> ex_written])
                \<lparr>files := [golden_path (TName ex_t) [] \<mapsto> ex_written](golden_path (TName ex_t) [] := None)\<rparr>, New ex_t)"
    unfolding p by (simp add: ex_fs_def)
  then have b: "Verify ex_packages True ex_store
        (ex_fs [golden_path (TName ex_t) [] \<mapsto> ex_written], New ex_t)
       = Inr (ex_fs Map.empty, New ex_t)"
    by (simp add: ex_fs_def)
  from locked have c: "Verify ex_packages True ex_store
        (ex_fs_locked [golden_path (TName ex_t) [] \<mapsto> ex_written], New ex_t)
       = Inr (ex_fs_locked [golden_path (TName ex_t) [] \<mapsto> ex_written],
              (New ex_t)\<lparr>s_t := Errorf (RemoveFailed (golden_path (TName ex_t) [])) ex_t\<rparr>)"
    unfolding p by (simp add: ex_fs_locked_def New_def)
  from a b c show ?thesis by simp
qed


subsection \<open>Compare mode\<close>

lemma expected_entries_Some: "expected_entries (map Some sns) = Inr sns"
  by (induction sns) simp_all

lemma ReadFile_exists:
  "ioutil_ReadFile fs path = Inr bytes \<Longrightarrow> \<not> os_IsNotExist (os_Stat fs path)"
  by (auto simp: ioutil_ReadFile_def os_IsNotExist_def os_Stat_def split: option.splits)

lemma Verify_compare:
  assumes "ioutil_ReadFile fs (golden_path (TName (s_t s)) (s_name s)) = Inr bytes"
    and "json_UnmarshalSnapshots pk bytes = Inr (map Some expected)"
  shows "Verify pk False h (fs, s) =
     (if diffString pk (IStrings (map Name expected)) (IStrings (map Name (s_snapshots s))) \<noteq> []
      then Inr (fs, s\<lparr>s_t := Errorf (NamesDiffer
             (diffString pk (IStrings (map Name expected)) (IStrings (map Name (s_snapshots s)))))
             (s_t s)\<rparr>)
      else (case compare_entries pk h expected (s_snapshots s) (s_t s) of
              Inl p \<Rightarrow> Inl p
            | Inr t' \<Rightarrow> Inr (fs, s\<lparr>s_t := t'\<rparr>)))"
  using assms ReadFile_exists [OF assms(1)]
  by (simp add: Verify_def Let_def expected_entries_Some)

text \<open>
  C4. In compare mode, when the golden file is read and decoded and its sequence of entry
  names differs from the captured one (in length, content or order, whatever the values
  are), Verify reports the diff of the two name sequences, which is not empty, and
  returns: that report is the only one, and no entry's values are compared. This needs
  of the imported packages that a unified diff is empty only for equal line sequences,
  that a text is determined by its lines and that the rendering of a sequence of names
  determines the sequence.
\<close>

theorem Verify_names_first:
  assumes "diff_exact pk" "lines_exact pk" "names_exact pk"
    and "ioutil_ReadFile fs (golden_path (TName (s_t s)) (s_name s)) = Inr bytes"
    and "json_UnmarshalSnapshots pk bytes = Inr (map Some expected)"
    and "map Name expected \<noteq> map Name (s_snapshots s)"
  shows "Verify pk False h (fs, s) =
     Inr (fs, s\<lparr>s_t := Errorf (NamesDiffer
            (diffString pk (IStrings (map Name expected)) (IStrings (map Name (s_snapshots s)))))
            (s_t s)\<rparr>)
     \<and> diffString pk (IStrings (map Name expected)) (IStrings (map Name (s_snapshots s))) \<noteq> []"
  using assms(6) names_diff [OF assms(1-3)] Verify_compare [OF assms(4,5)]
  by simp

text \<open>
  The captured names \<^verbatim>\<open>e2, e1\<close> against the golden names \<^verbatim>\<open>e1, e2\<close>, with the same
  values under each name.
\<close>

lemma ex_swapped:
  "s_snapshots (snd (capture ex_packages [(''e2'', 1), (''e1'', 0)] (ex_store, New ex_t))) =
     [\<lparr>Name = ''e2'', Values = 1\<rparr>, \<lparr>Name = ''e1'', Values = 0\<rparr>]"
  "s_name (snd (capture ex_packages [(''e2'', 1), (''e1'', 0)] (ex_store, New ex_t))) = []"
  "s_t (snd (capture ex_packages [(''e2'', 1), (''e1'', 0)] (ex_store, New ex_t))) = ex_t"
  by (simp_all add: ex_eval)

theorem Verify_names_first_witness:
  "map Name [\<lparr>Name = ''e1'', Values = [IOther (OFloat64 2)]\<rparr>,
             \<lparr>Name = ''e2'', Values = [IOther (OFloat64 3)]\<rparr>]
     \<noteq> map Name (s_snapshots (snd (capture ex_packages [(''e2'', 1), (''e1'', 0)]
                                     (ex_store, New ex_t))))
   \<and> Verify ex_packages False
        (fst (capture ex_packages [(''e2'', 1), (''e1'', 0)] (ex_store, New ex_t)))
        (ex_fs [golden_path (TName ex_t) [] \<mapsto> ex_written],
         snd (capture ex_packages [(''e2'', 1), (''e1'', 0)] (ex_store, New ex_t)))
     = Inr (ex_fs [golden_path (TName ex_t) [] \<mapsto> ex_written],
            (snd (capture ex_packages [(''e2'', 1), (''e1'', 0)] (ex_store, New ex_t)))
              \<lparr>s_t := Errorf (NamesDiffer
                   (diffString ex_packages (IStrings [''e1'', ''e2'']) (IStrings [''e2'', ''e1''])))
                   ex_t\<rparr>)"
proof -
  let ?st = "capture ex_packages [(''e2'', 1), (''e1'', 0)] (ex_store, New ex_t)"
  let ?fs = "ex_fs [golden_path (TName ex_t) [] \<mapsto> ex_written]"
  let ?expected = "[\<lparr>Name = ''e1'', Values = [IOther (OFloat64 2)]\<rparr>,
                    \<lparr>Name = ''e2'', Values = [IOther (OFloat64 3)]\<rparr>]"
  have rd: "ioutil_ReadFile ?fs (golden_path (TName (s_t (snd ?st))) (s_name (snd ?st))) = Inr ex_written"
    unfolding ex_swapped by (simp add: ex_fs_def ioutil_ReadFile_def)
  have dec: "json_UnmarshalSnapshots ex_packages ex_written = Inr (map Some ?expected)"
    by (simp add: ex_packages_def ex_written_def)
  have ne: "map Name ?expected \<noteq> map Name (s_snapshots (snd ?st))"
    unfolding ex_swapped by simp
  from Verify_names_first [OF ex_diff_exact ex_lines_exact ex_names_exact rd dec ne, of "fst ?st"] ne
  show ?thesis
    unfolding ex_swapped by simp
qed

lemma string_diff_strings:
  assumes "diff_exact pk" "lines_exact pk"
  shows "string_diff pk [IString x] [IString y] =
     (if x = y then None else Some (diffString pk (IString x) (IString y)))"
  using assms by (simp add: string_diff_def Let_def diffString_empty_iff coerceToString_def)

lemma compare_entries_strings:
  assumes "diff_exact pk" "lines_exact pk"
    and "Values e = [IString x]" "h (Values a) = [IString y]"
  shows "compare_entries pk h (e # expected) (a # actual) t =
     (if x = y then compare_entries pk h expected actual t
      else Inr (Errorf RewriteHint (Errorf (SnapshotDiffers (Name a)
             (difflib_GetUnifiedDiffString pk
                \<lparr>A = difflib_SplitLines pk x, B = difflib_SplitLines pk y,
                 FromFile = ''expected'', ToFile = ''received'', Context = 1\<rparr>)) t)))"
proof (cases "x = y")
  case True
  with assms show ?thesis
    by (simp add: string_diff_strings diffString_refl)
next
  case False
  with assms show ?thesis
    by (simp add: string_diff_strings) (simp add: diffString_def coerceToString_def)
qed

lemma string_diff_same: "diff_exact pk \<Longrightarrow> string_diff pk vs vs = None"
  by (auto simp: string_diff_def Let_def diffString_refl split: iface.splits)

lemma compare_entries_same:
  "diff_exact pk \<Longrightarrow> compare_entries pk h (map (deref h) sns) sns t = Inr t"
  by (induction sns) (simp_all add: deref_def string_diff_same diffString_refl)

lemma compare_entries_same_prefix:
  "diff_exact pk \<Longrightarrow>
   compare_entries pk h (map (deref h) pre @ expected) (pre @ actual) t =
   compare_entries pk h expected actual t"
  by (induction pre) (simp_all add: deref_def string_diff_same diffString_refl)

text \<open>
  C7. In compare mode, at an entry that carries exactly one value on both sides, a string
  on both sides (the entries before it being equal to their golden entries): when the two
  strings differ, Verify reports the unified diff of the lines of the two raw strings,
  which is not empty, with the hint, and returns; when they are equal, the entry adds no
  report and Verify goes on with the entries after it. This needs of the imported
  packages that a unified diff is empty exactly for equal line sequences and that a text
  is determined by its lines.
\<close>

theorem Verify_string_special_case:
  assumes "diff_exact pk" "lines_exact pk"
    and "ioutil_ReadFile fs (golden_path (TName (s_t s)) (s_name s)) = Inr bytes"
    and "json_UnmarshalSnapshots pk bytes = Inr (map Some (map (deref h) pre @ e # expected))"
    and "s_snapshots s = pre @ a # actual"
    and "Name e = Name a" "map Name expected = map Name actual"
    and "Values e = [IString x]" "h (Values a) = [IString y]"
  shows "Verify pk False h (fs, s) =
     (if x = y then
        (case compare_entries pk h expected actual (s_t s) of
           Inl p \<Rightarrow> Inl p
         | Inr t' \<Rightarrow> Inr (fs, s\<lparr>s_t := t'\<rparr>))
      else Inr (fs, s\<lparr>s_t := Errorf RewriteHint (Errorf (SnapshotDiffers (Name a)
             (difflib_GetUnifiedDiffString pk
                \<lparr>A = difflib_SplitLines pk x, B = difflib_SplitLines pk y,
                 FromFile = ''expected'', ToFile = ''received'', Context = 1\<rparr>)) (s_t s))\<rparr>))
     \<and> (x \<noteq> y \<longrightarrow> difflib_GetUnifiedDiffString pk
                \<lparr>A = difflib_SplitLines pk x, B = difflib_SplitLines pk y,
                 FromFile = ''expected'', ToFile = ''received'', Context = 1\<rparr> \<noteq> [])"
proof -
  have nonempty: "difflib_GetUnifiedDiffString pk
                \<lparr>A = difflib_SplitLines pk x, B = difflib_SplitLines pk y,
                 FromFile = ''expected'', ToFile = ''received'', Context = 1\<rparr> \<noteq> []" if "x \<noteq> y"
    using that assms(1,2) by (simp add: diff_exact_def lines_exact_def)
  have "map Name (map (deref h) pre @ e # expected) = map Name (s_snapshots s)"
    using assms(5-7) by (simp add: deref_def)
  then have names: "diffString pk (IStrings (map Name (map (deref h) pre @ e # expected)))
      (IStrings (map Name (s_snapshots s))) = []"
    using assms(1) by (simp only: diffString_refl)
  have "Verify pk False h (fs, s) =
     (case compare_entries pk h (map (deref h) pre @ e # expected) (pre @ a # actual) (s_t s) of
              Inl p \<Rightarrow> Inl p
            | Inr t' \<Rightarrow> Inr (fs, s\<lparr>s_t := t'\<rparr>))"
    using Verify_compare [OF assms(3,4)] names assms(5) by simp
  also have "compare_entries pk h (map (deref h) pre @ e # expected) (pre @ a # actual) (s_t s) =
      compare_entries pk h (e # expected) (a # actual) (s_t s)"
    using assms(1) by (rule compare_entries_same_prefix)
  finally have "Verify pk False h (fs, s) =
     (case compare_entries pk h (e # expected) (a # actual) (s_t s) of
              Inl p \<Rightarrow> Inl p
            | Inr t' \<Rightarrow> Inr (fs, s\<lparr>s_t := t'\<rparr>))" .
  moreover note compare_entries_strings [of pk e x h a y expected actual "s_t s"]
  ultimately show ?thesis
    using assms(1,2,8,9) nonempty by (simp del: compare_entries.simps)
qed

text \<open>
  The captured string \<^verbatim>\<open>hello\<close> against the golden string \<^verbatim>\<open>hullo\<close>.
\<close>

lemma ex_greeted:
  "s_snapshots (snd (capture ex_packages [(''greeting'', 3)] (ex_store, New ex_t))) =
     [\<lparr>Name = ''greeting'', Values = 3\<rparr>]"
  "s_name (snd (capture ex_packages [(''greeting'', 3)] (ex_store, New ex_t))) = []"
  "s_t (snd (capture ex_packages [(''greeting'', 3)] (ex_store, New ex_t))) = ex_t"
  "fst (capture ex_packages [(''greeting'', 3)] (ex_store, New ex_t)) 3 = [IString ''hello'']"
  by (simp_all add: ex_eval)

theorem Verify_string_special_case_witness:
  "''hullo'' \<noteq> ''hello''
   \<and> Verify ex_packages False
        (fst (capture ex_packages [(''greeting'', 3)] (ex_store, New ex_t)))
        (ex_fs [golden_path (TName ex_t) [] \<mapsto> ex_greeting],
         snd (capture ex_packages [(''greeting'', 3)] (ex_store, New ex_t)))
     = Inr (ex_fs [golden_path (TName ex_t) [] \<mapsto> ex_greeting],
            (snd (capture ex_packages [(''greeting'', 3)] (ex_store, New ex_t)))
              \<lparr>s_t := Errorf RewriteHint (Errorf (SnapshotDiffers ''greeting''
                   (difflib_GetUnifiedDiffString ex_packages
                      \<lparr>A = difflib_SplitLines ex_packages ''hullo'',
                       B = difflib_SplitLines ex_packages ''hello'',
                       FromFile = ''expected'', ToFile = ''received'', Context = 1\<rparr>)) ex_t)\<rparr>)"
proof -
  let ?st = "capture ex_packages [(''greeting'', 3)] (ex_store, New ex_t)"
  let ?fs = "ex_fs [golden_path (TName ex_t) [] \<mapsto> ex_greeting]"
  let ?e = "\<lparr>Name = ''greeting'', Values = [IString ''hullo'' :: other iface]\<rparr>"
  let ?a = "\<lparr>Name = ''greeting'', Values = 3 :: addr\<rparr>"
  have rd: "ioutil_ReadFile ?fs (golden_path (TName (s_t (snd ?st))) (s_name (snd ?st))) = Inr ex_greeting"
    unfolding ex_greeted by (simp add: ex_fs_def ioutil_ReadFile_def)
  have dec: "json_UnmarshalSnapshots ex_packages ex_greeting =
      Inr (map Some (map (deref (fst ?st)) [] @ ?e # []))"
    by (simp add: ex_packages_def ex_greeting_def)
  have act: "s_snapshots (snd ?st) = [] @ ?a # []"
    using ex_greeted(1) by simp
  have nm: "Name ?e = Name ?a" by simp
  have nms: "map Name ([] :: other iface list snapshot list) = map Name ([] :: addr snapshot list)"
    by simp
  have ev: "Values ?e = [IString ''hullo'']" by simp
  have av: "fst ?st (Values ?a) = [IString ''hello'']"
    using ex_greeted(4) by simp
  have ne: "''hullo'' \<noteq> ''hello''" by simp
  note t = Verify_string_special_case
    [where h = "fst ?st" and e = ?e and a = ?a and pre = "[]",
     OF ex_diff_exact ex_lines_exact rd dec act nm nms ev av]
  from t ne show ?thesis
    unfolding ex_greeted by simp
qed

text \<open>
  After a mismatch found by the comparison of line 164, which has no return, the loop goes
  on with the next entry.
\<close>

lemma compare_entries_goes_on:
  assumes "string_diff pk (Values e) (h (Values a)) = None"
    and "diffString pk (ISlice (Values e)) (ISlice (h (Values a))) \<noteq> []"
  shows "compare_entries pk h (e # expected) (a # actual) t =
     compare_entries pk h expected actual
       (Errorf RewriteHint (Errorf (SnapshotDiffers (Name a)
          (diffString pk (ISlice (Values e)) (ISlice (h (Values a))))) t))"
  using assms by (simp add: Let_def)

text \<open>
  C1. Verify stops at the first mismatching entry only when the mismatch is found by the
  string comparison of lines 152 to 162, which returns; the comparison of line 164 reports
  and goes on. Here the test captures \<^verbatim>\<open>e1 = 2\<close> and \<^verbatim>\<open>e2 = 3\<close>, the golden file holds
  \<^verbatim>\<open>e1 = 1\<close> and \<^verbatim>\<open>e2 = 2\<close>, and Verify in compare mode reports both entries, each
  with the hint, where a Verify that stops at the first mismatch would report \<^verbatim>\<open>e1\<close> only.
\<close>

theorem Verify_reports_every_mismatch:
  "map_sum id snd
     (run_test ex_packages False ex_t [] ex_calls ex_store
        (ex_fs [golden_path (TName ex_t) [] \<mapsto> ex_old]))
   = Inr [SnapshotDiffers ''e1''
            (diffString ex_packages (ISlice [IOther (OFloat64 1)]) (ISlice [IOther (OFloat64 2)])),
          RewriteHint,
          SnapshotDiffers ''e2''
            (diffString ex_packages (ISlice [IOther (OFloat64 2)]) (ISlice [IOther (OFloat64 3)])),
          RewriteHint]
   \<and> diffString ex_packages (ISlice [IOther (OFloat64 1)]) (ISlice [IOther (OFloat64 2)]) \<noteq> []
   \<and> diffString ex_packages (ISlice [IOther (OFloat64 2)]) (ISlice [IOther (OFloat64 3)]) \<noteq> []"
  by code_simp


subsection \<open>Rewrite, then compare\<close>

lemma Verify_rewrite_quiet:
  assumes "Verify pk True h (fs, s) = Inr (fs', s)"
  shows "failing fs' = failing fs \<and>
     (if s_snapshots s = [] then files fs' (golden_path (TName (s_t s)) (s_name s)) = None
      else (\<exists>bytes. json_MarshalIndent pk (map (deref h) (s_snapshots s)) = Inr bytes \<and>
              files fs' (golden_path (TName (s_t s)) (s_name s)) = Some bytes))"
proof -
  have neq: "s\<lparr>s_t := Errorf r (s_t s)\<rparr> \<noteq> s" for r
  proof
    assume "s\<lparr>s_t := Errorf r (s_t s)\<rparr> = s"
    then have "s_t (s\<lparr>s_t := Errorf r (s_t s)\<rparr>) = s_t s" by simp
    then have "Errors (Errorf r (s_t s)) = Errors (s_t s)" by simp
    then show False by (simp add: Errorf_def)
  qed
  show ?thesis
    using assms neq
    by (auto simp: Verify_def Let_def os_IsNotExist_def os_Stat_def os_Remove_def
        os_MkdirAll_def ioutil_WriteFile_def
        split: if_splits option.splits sum.splits prod.splits)
qed

lemma Verify_rewrite_then_compare:
  assumes "diff_exact pk"
    and "decodes_back pk (map (deref h) (s_snapshots s))"
    and "Verify pk True h (fs, s) = Inr (fs', s)"
    and "failing fs' Stat (golden_path (TName (s_t s)) (s_name s)) = None"
    and "failing fs' ReadFile (golden_path (TName (s_t s)) (s_name s)) = None"
  shows "Verify pk False h (fs', s) = Inr (fs', s)"
proof (cases "s_snapshots s = []")
  case True
  with Verify_rewrite_quiet [OF assms(3)] assms(4) show ?thesis
    by (simp add: Verify_def os_IsNotExist_def os_Stat_def)
next
  case False
  with Verify_rewrite_quiet [OF assms(3)] obtain bytes where
    b: "json_MarshalIndent pk (map (deref h) (s_snapshots s)) = Inr bytes"
       "files fs' (golden_path (TName (s_t s)) (s_name s)) = Some bytes"
    by auto
  from b(2) assms(5) have rd: "ioutil_ReadFile fs' (golden_path (TName (s_t s)) (s_name s)) = Inr bytes"
    by (simp add: ioutil_ReadFile_def)
  from b(1) assms(2) have dec:
    "json_UnmarshalSnapshots pk bytes = Inr (map Some (map (deref h) (s_snapshots s)))"
    by (simp add: decodes_back_def)
  have names: "map Name (map (deref h) (s_snapshots s)) = map Name (s_snapshots s)"
    by (simp add: deref_def)
  show ?thesis
    using Verify_compare [OF rd dec] assms(1)
    by (simp add: names diffString_refl compare_entries_same del: map_map)
qed

lemma Snapshot_keeps:
  "Snapshot pk nm a (h, s) = (h', s') \<Longrightarrow>
   TName (s_t s') = TName (s_t s) \<and> s_name s' = s_name s \<and>
   (\<exists>rs. Errors (s_t s') = Errors (s_t s) @ rs)"
  by (auto simp: Snapshot_unfold Errorf_def split: prod.splits option.splits)

lemma capture_keeps:
  "capture pk calls (h, s) = (h', s') \<Longrightarrow>
   TName (s_t s') = TName (s_t s) \<and> s_name s' = s_name s \<and>
   (\<exists>rs. Errors (s_t s') = Errors (s_t s) @ rs)"
proof (induction calls arbitrary: h s)
  case Nil
  then show ?case by (simp add: capture_def)
next
  case (Cons c calls)
  obtain nm a where c: "c = (nm, a)" by (cases c)
  obtain h1 s1 where one: "Snapshot pk nm a (h, s) = (h1, s1)"
    by (cases "Snapshot pk nm a (h, s)")
  with Cons.prems c have "capture pk calls (h1, s1) = (h', s')"
    by (simp add: capture_def)
  from Cons.IH [OF this] Snapshot_keeps [OF one] show ?case by auto
qed

lemma Verify_rewrite_reports:
  "Verify pk True h (fs, s) = Inr (fs', s') \<Longrightarrow>
   s' = s \<or> (\<exists>r. s' = s\<lparr>s_t := Errorf r (s_t s)\<rparr>)"
  by (auto simp: Verify_def Let_def split: if_splits option.splits sum.splits prod.splits)

lemma Snapshot_normal:
  assumes inv: "\<forall>sn \<in> set (s_snapshots s). \<forall>g \<in> set (h (Values sn)). \<exists>v. jsonRoundTrip pk v = Inr g"
    and run: "Snapshot pk nm a (h, s) = (h', s')"
  shows "\<forall>sn \<in> set (s_snapshots s'). \<forall>g \<in> set (h' (Values sn)). \<exists>v. jsonRoundTrip pk v = Inr g"
proof (intro ballI)
  fix sn g
  assume sn: "sn \<in> set (s_snapshots s')" and g: "g \<in> set (h' (Values sn))"
  show "\<exists>v. jsonRoundTrip pk v = Inr g"
  proof (cases "\<forall>j<length (h a). \<exists>r. jsonRoundTrip pk (h a ! j) = Inr r")
    case True
    note ok = Snapshot_succeeds [OF True run]
    show ?thesis
    proof (cases "Values sn = a")
      case True
      with g obtain j where "j < length (h' a)" "g = h' a ! j"
        by (auto simp: in_set_conv_nth)
      with ok have "jsonRoundTrip pk (h a ! j) = Inr g" by simp
      then show ?thesis ..
    next
      case False
      with ok sn have "sn \<in> set (s_snapshots s)" by auto
      moreover from False ok g have "g \<in> set (h (Values sn))" by simp
      ultimately show ?thesis using inv by blast
    qed
  next
    case False
    then obtain k err where k: "k < length (h a)"
      "\<forall>j<k. \<exists>r. jsonRoundTrip pk (h a ! j) = Inr r" "jsonRoundTrip pk (h a ! k) = Inl err"
      using first_failure [of "h a" "jsonRoundTrip pk"] by blast
    note bad = Snapshot_fails [OF k run]
    from bad sn have old: "sn \<in> set (s_snapshots s)" by simp
    show ?thesis
    proof (cases "Values sn = a")
      case True
      with g obtain j where j: "j < length (h' a)" "g = h' a ! j"
        by (auto simp: in_set_conv_nth)
      show ?thesis
      proof (cases "j < k")
        case True
        with bad j have "jsonRoundTrip pk (h a ! j) = Inr g" by simp
        then show ?thesis ..
      next
        case False
        with bad j have "g = h a ! j" "j < length (h a)" by simp_all
        then have "g \<in> set (h (Values sn))" using \<open>Values sn = a\<close> by simp
        with old inv show ?thesis by blast
      qed
    next
      case False
      with bad g have "g \<in> set (h (Values sn))" by simp
      with old inv show ?thesis by blast
    qed
  qed
qed

lemma capture_normal:
  assumes "\<forall>sn \<in> set (s_snapshots s). \<forall>g \<in> set (h (Values sn)). \<exists>v. jsonRoundTrip pk v = Inr g"
    and "capture pk calls (h, s) = (h', s')"
  shows "\<forall>sn \<in> set (s_snapshots s'). \<forall>g \<in> set (h' (Values sn)). \<exists>v. jsonRoundTrip pk v = Inr g"
  using assms
proof (induction calls arbitrary: h s)
  case Nil
  then show ?case by (simp add: capture_def)
next
  case (Cons c calls)
  obtain nm a where c: "c = (nm, a)" by (cases c)
  obtain h1 s1 where one: "Snapshot pk nm a (h, s) = (h1, s1)"
    by (cases "Snapshot pk nm a (h, s)")
  with Cons.prems(2) c have rest: "capture pk calls (h1, s1) = (h', s')"
    by (simp add: capture_def)
  from Snapshot_normal [OF Cons.prems(1) one] rest show ?case
    by (rule Cons.IH)
qed

lemma Snapshot_names:
  "Snapshot pk nm a (h, s) = (h', s') \<Longrightarrow>
   Name ` set (s_snapshots s') \<subseteq> insert nm (Name ` set (s_snapshots s))"
  by (auto simp: Snapshot_unfold split: prod.splits option.splits)

lemma capture_names:
  "capture pk calls (h, s) = (h', s') \<Longrightarrow>
   Name ` set (s_snapshots s') \<subseteq> Name ` set (s_snapshots s) \<union> fst ` set calls"
proof (induction calls arbitrary: h s)
  case Nil
  then show ?case by (simp add: capture_def)
next
  case (Cons c calls)
  obtain nm a where c: "c = (nm, a)" by (cases c)
  obtain h1 s1 where one: "Snapshot pk nm a (h, s) = (h1, s1)"
    by (cases "Snapshot pk nm a (h, s)")
  with Cons.prems c have "capture pk calls (h1, s1) = (h', s')"
    by (simp add: capture_def)
  from Cons.IH [OF this] Snapshot_names [OF one] c show ?case by auto
qed

lemma list_all2_same:
  "list_all2 P xs ys \<Longrightarrow> (\<And>x y. x \<in> set xs \<Longrightarrow> P x y \<Longrightarrow> y = x) \<Longrightarrow> ys = xs"
  by (induction rule: list_all2_induct) auto

lemma normal_decodes_back:
  assumes reads: "json_reads_back pk" and entrywise: "json_entrywise pk"
    and names: "\<forall>sn \<in> set sns. jsonRoundTrip pk (IString (Name sn)) = Inr (IString (Name sn))"
    and normal: "\<forall>sn \<in> set sns. \<forall>g \<in> set (Values sn). \<exists>v. jsonRoundTrip pk v = Inr g"
  shows "decodes_back pk sns"
proof -
  have stable: "jsonRoundTrip pk g = Inr g" if "sn \<in> set sns" "g \<in> set (Values sn)" for sn g
  proof -
    from normal that obtain v where "jsonRoundTrip pk v = Inr g" by blast
    then obtain bytes where "json_Unmarshal pk bytes = Inr g"
      using jsonRoundTrip_Unmarshal by blast
    with reads show ?thesis by (rule Unmarshal_result_stable)
  qed
  have "json_UnmarshalSnapshots pk bytes = Inr (map Some sns)"
    if enc: "json_MarshalIndent pk sns = Inr bytes" for bytes
  proof -
    have "\<forall>sn \<in> set sns. \<forall>v \<in> set (Values sn). \<exists>g. jsonRoundTrip pk v = Inr g"
      using stable by blast
    with entrywise enc obtain decoded where
      dec: "json_UnmarshalSnapshots pk bytes = Inr (map Some decoded)"
      and all: "list_all2
             (\<lambda>sn d. jsonRoundTrip pk (IString (Name sn)) = Inr (IString (Name d)) \<and>
                     list_all2 (\<lambda>v g. jsonRoundTrip pk v = Inr g) (Values sn) (Values d))
             sns decoded"
      unfolding json_entrywise_def rereads_roundtrip by blast
    have "d = sn"
      if sn: "sn \<in> set sns"
        and d: "jsonRoundTrip pk (IString (Name sn)) = Inr (IString (Name d)) \<and>
                list_all2 (\<lambda>v g. jsonRoundTrip pk v = Inr g) (Values sn) (Values d)"
      for sn d
    proof -
      from names sn d have n: "Name d = Name sn" by auto
      from d have "list_all2 (\<lambda>v g. jsonRoundTrip pk v = Inr g) (Values sn) (Values d)" ..
      then have "Values d = Values sn"
        by (rule list_all2_same) (use stable [OF sn] in auto)
      with n show ?thesis by simp
    qed
    with all have "decoded = sns" by (rule list_all2_same)
    with dec show ?thesis by simp
  qed
  then show ?thesis by (simp add: decodes_back_def)
qed

text \<open>
  C3. A test whose entry names come back unchanged from the JSON round trip (encoding/json
  keeps a name exactly when it is valid UTF-8), that makes its Snapshot calls and verifies
  in rewrite mode without any report, and is then run again with the same calls on a
  fresh Snapshotter for the same test identifier and discriminator in compare mode, on
  the file system the first run left, reports nothing. The values need no such
  condition: Snapshot has normalized them, and normalized values are read back unchanged.
  This needs of the imported packages \<open>json_reads_back\<close>, \<open>json_entrywise\<close> and that
  the diff of a text with itself is empty, and of the file system that \<^verbatim>\<open>os.Stat\<close> and
  \<^verbatim>\<open>ioutil.ReadFile\<close> do not fail on the golden file for a reason of their own.
\<close>

theorem rewrite_then_compare:
  assumes exact: "diff_exact pk" and reads: "json_reads_back pk" and entrywise: "json_entrywise pk"
    and names: "\<forall>nm \<in> fst ` set calls. jsonRoundTrip pk (IString nm) = Inr (IString nm)"
    and rw: "run_test pk True t d calls h0 fs = Inr (fs', Errors t)"
    and st: "failing fs' Stat (golden_path (TName t) d) = None"
    and rd: "failing fs' ReadFile (golden_path (TName t) d) = None"
  shows "run_test pk False t d calls h0 fs' = Inr (fs', Errors t)"
proof -
  obtain h s where cap: "capture pk calls (h0, NewNamed t d) = (h, s)"
    by (cases "capture pk calls (h0, NewNamed t d)")
  from capture_keeps [OF cap] obtain rs where
    keep: "TName (s_t s) = TName t" "s_name s = d" "Errors (s_t s) = Errors t @ rs"
    by (auto simp: NewNamed_def)
  have "\<forall>sn \<in> set (s_snapshots (NewNamed t d)).
      \<forall>g \<in> set (h0 (Values sn)). \<exists>v. jsonRoundTrip pk v = Inr g"
    by (simp add: NewNamed_def)
  from capture_normal [OF this cap]
  have normal: "\<forall>sn \<in> set (map (deref h) (s_snapshots s)).
      \<forall>g \<in> set (Values sn). \<exists>v. jsonRoundTrip pk v = Inr g"
    by (simp add: deref_def)
  from capture_names [OF cap] have "Name ` set (s_snapshots s) \<subseteq> fst ` set calls"
    by (simp add: NewNamed_def)
  with names have "jsonRoundTrip pk (IString (Name sn)) = Inr (IString (Name sn))"
    if "sn \<in> set (s_snapshots s)" for sn
    using that by blast
  then have "\<forall>sn \<in> set (map (deref h) (s_snapshots s)).
      jsonRoundTrip pk (IString (Name sn)) = Inr (IString (Name sn))"
    by (simp add: deref_def)
  with reads entrywise have dec: "decodes_back pk (map (deref h) (s_snapshots s))"
    using normal by (rule normal_decodes_back)
  from rw cap obtain s' where v: "Verify pk True h (fs, s) = Inr (fs', s')"
    and e: "Errors (s_t s') = Errors t"
    by (auto simp: run_test_def split: sum.splits)
  from Verify_rewrite_reports [OF v] keep(3) e have quiet: "s' = s" "rs = []"
    by (auto simp: Errorf_def)
  with v have "Verify pk True h (fs, s) = Inr (fs', s)" by simp
  from Verify_rewrite_then_compare [OF exact dec this] st rd keep(1,2)
  have "Verify pk False h (fs', s) = Inr (fs', s)" by simp
  with cap keep(3) quiet(2) show ?thesis
    by (simp add: run_test_def)
qed

lemmas doc_eval =
  run_test_def capture_def ex_calls_def Snapshot_def Snapshot_range.simps
  ex_store_def NewNamed_def ex_t_def doc_roundtrip coerceUTF8_examples
  ex_fs_def doc_fields doc_MarshalIndent_def doc_entry_def deref_def
  ex_written_def ioutil_ReadFile_def Verify_def os_MkdirAll_def ioutil_WriteFile_def

lemma doc_rewrite_run:
  "run_test doc_packages True ex_t ''v2'' ex_calls ex_store (ex_fs Map.empty) =
     Inr (ex_fs [golden_path (TName ex_t) ''v2'' \<mapsto> ex_written], Errors ex_t)"
  by (simp add: doc_eval)

theorem rewrite_then_compare_witness:
  "run_test doc_packages True ex_t ''v2'' ex_calls ex_store (ex_fs Map.empty) =
     Inr (ex_fs [golden_path (TName ex_t) ''v2'' \<mapsto> ex_written], [])
   \<and> run_test doc_packages False ex_t ''v2'' ex_calls ex_store
        (ex_fs [golden_path (TName ex_t) ''v2'' \<mapsto> ex_written]) =
     Inr (ex_fs [golden_path (TName ex_t) ''v2'' \<mapsto> ex_written], [])"
proof -
  let ?fs' = "ex_fs [golden_path (TName ex_t) ''v2'' \<mapsto> ex_written]"
  have names: "\<forall>nm \<in> fst ` set ex_calls.
      jsonRoundTrip doc_packages (IString nm) = Inr (IString nm)"
    by (simp add: ex_calls_def doc_names)
  have st: "failing ?fs' Stat (golden_path (TName ex_t) ''v2'') = None"
    and rd: "failing ?fs' ReadFile (golden_path (TName ex_t) ''v2'') = None"
    by (simp_all add: ex_fs_def)
  from rewrite_then_compare
    [OF doc_diff_exact doc_reads_back doc_entrywise names doc_rewrite_run st rd]
    doc_rewrite_run
  show ?thesis by (simp add: ex_t_def)
qed

lemma invalid_name_rewrite:
  "run_test doc_packages True ex_t [] [([CHR 0xFF], 0)] ex_store (ex_fs Map.empty) =
       Inr (ex_fs [golden_path (TName ex_t) [] \<mapsto>
              SnapshotsDoc [Some \<lparr>Name = RuneError, Values = [IOther (OFloat64 2)]\<rparr>]], [])"
  by (simp add: doc_eval)

lemma invalid_name_diff:
  "diffString doc_packages (IStrings [RuneError]) (IStrings [[CHR 0xFF]]) \<noteq> []"
  by (simp add: diffString_def doc_fields coerceToString_def ex_GetUnifiedDiffString_def
      ex_SplitLines_def RuneError_def)

lemma invalid_name_compare:
  "run_test doc_packages False ex_t [] [([CHR 0xFF], 0)] ex_store
        (ex_fs [golden_path (TName ex_t) [] \<mapsto>
              SnapshotsDoc [Some \<lparr>Name = RuneError, Values = [IOther (OFloat64 2)]\<rparr>]]) =
       Inr (ex_fs [golden_path (TName ex_t) [] \<mapsto>
              SnapshotsDoc [Some \<lparr>Name = RuneError, Values = [IOther (OFloat64 2)]\<rparr>]],
            [NamesDiffer (diffString doc_packages (IStrings [RuneError]) (IStrings [[CHR 0xFF]]))])"
  using invalid_name_diff
  by (simp add: doc_eval os_IsNotExist_def os_Stat_def Errorf_def coerceUTF8_RuneError [of "[]", simplified])

text \<open>
  Without the condition on the names the fixed point fails. The test calls
  \<^verbatim>\<open>Snapshot("\xff", 2)\<close>: the value normalizes, the rewrite run reports nothing and
  writes the name as U+FFFD, and the compare run on the same calls reports that the
  snapshot names differ.
\<close>

theorem rewrite_then_compare_invalid_name:
  "jsonRoundTrip doc_packages (ex_store 0 ! 0) = Inr (IOther (OFloat64 2))
   \<and> run_test doc_packages True ex_t [] [([CHR 0xFF], 0)] ex_store (ex_fs Map.empty) =
       Inr (ex_fs [golden_path (TName ex_t) [] \<mapsto>
              SnapshotsDoc [Some \<lparr>Name = RuneError, Values = [IOther (OFloat64 2)]\<rparr>]], [])
   \<and> run_test doc_packages False ex_t [] [([CHR 0xFF], 0)] ex_store
        (ex_fs [golden_path (TName ex_t) [] \<mapsto>
              SnapshotsDoc [Some \<lparr>Name = RuneError, Values = [IOther (OFloat64 2)]\<rparr>]]) =
       Inr (ex_fs [golden_path (TName ex_t) [] \<mapsto>
              SnapshotsDoc [Some \<lparr>Name = RuneError, Values = [IOther (OFloat64 2)]\<rparr>]],
            [NamesDiffer (diffString doc_packages (IStrings [RuneError]) (IStrings [[CHR 0xFF]]))])
   \<and> diffString doc_packages (IStrings [RuneError]) (IStrings [[CHR 0xFF]]) \<noteq> []"
proof -
  have "jsonRoundTrip doc_packages (ex_store 0 ! 0) = Inr (IOther (OFloat64 2))"
    by (simp add: ex_store_0 doc_roundtrip)
  with invalid_name_rewrite invalid_name_compare invalid_name_diff show ?thesis
    by (intro conjI)
qed

end
